theory Spec2Isabelle
  imports Main "HOL-Library.AList"
begin

section \<open>Python strings\<close>

text \<open>
  A Python \<^verbatim>\<open>str\<close> is a sequence of Unicode code points, so a character is a
  natural number and \<^verbatim>\<open>len\<close> counts code points.  Literals are written
  \<open>ascii ''...''\<close>.
\<close>

type_synonym uchar = nat
type_synonym ustring = "uchar list"

definition ascii :: "string \<Rightarrow> ustring" where
  "ascii s = map of_char s"

text \<open>
  What \<^verbatim>\<open>str.lower\<close>, \<^verbatim>\<open>str.isdigit\<close> and the character classes of \<^verbatim>\<open>re\<close> do above
  code point 127 is read from the Unicode character database the interpreter is built
  with.  That database is a parameter \<open>U\<close> of everything below: \<open>uc_lower\<close> is
  \<^verbatim>\<open>str.lower\<close> on a string that has a non-ASCII code point (the result may differ in
  length); \<open>uc_isalpha\<close>, \<open>uc_isdecimal\<close>, \<open>uc_isdigit\<close> and \<open>uc_isnumeric\<close> are the
  properties of a non-ASCII code point; \<open>uc_ignorecase p c\<close> says whether the non-ASCII
  code point \<open>c\<close> matches the pattern character \<open>p\<close> under \<^verbatim>\<open>re.IGNORECASE\<close>.  On
  ASCII the functions are fixed and written out.
\<close>

record unicode =
  uc_lower :: "ustring \<Rightarrow> ustring"
  uc_isalpha :: "uchar \<Rightarrow> bool"
  uc_isdecimal :: "uchar \<Rightarrow> bool"
  uc_isdigit :: "uchar \<Rightarrow> bool"
  uc_isnumeric :: "uchar \<Rightarrow> bool"
  uc_ignorecase :: "uchar \<Rightarrow> uchar \<Rightarrow> bool"

definition lower_cp :: "uchar \<Rightarrow> uchar" where
  "lower_cp c = (if 65 \<le> c \<and> c \<le> 90 then c + 32 else c)"

definition is_ascii :: "ustring \<Rightarrow> bool" where
  "is_ascii s = list_all (\<lambda>c. c < 128) s"

definition lower :: "unicode \<Rightarrow> ustring \<Rightarrow> ustring" where
  "lower U s = (if is_ascii s then map lower_cp s else uc_lower U s)"

definition isalpha :: "unicode \<Rightarrow> uchar \<Rightarrow> bool" where
  "isalpha U c =
     (if c < 128 then (65 \<le> c \<and> c \<le> 90) \<or> (97 \<le> c \<and> c \<le> 122) else uc_isalpha U c)"

definition isdecimal :: "unicode \<Rightarrow> uchar \<Rightarrow> bool" where
  "isdecimal U c = (if c < 128 then 48 \<le> c \<and> c \<le> 57 else uc_isdecimal U c)"

definition isdigit :: "unicode \<Rightarrow> uchar \<Rightarrow> bool" where
  "isdigit U c = (if c < 128 then 48 \<le> c \<and> c \<le> 57 else uc_isdigit U c)"

definition isnumeric :: "unicode \<Rightarrow> uchar \<Rightarrow> bool" where
  "isnumeric U c = (if c < 128 then 48 \<le> c \<and> c \<le> 57 else uc_isnumeric U c)"

text \<open>
  \<^verbatim>\<open>str.isalnum\<close> of one character: alphabetic, decimal, digit or numeric.
\<close>

definition isalnum :: "unicode \<Rightarrow> uchar \<Rightarrow> bool" where
  "isalnum U c = (isalpha U c \<or> isdecimal U c \<or> isdigit U c \<or> isnumeric U c)"

text \<open>
  An excerpt of the database for the evaluations below: the letters U+00C9, U+00E9,
  U+0130, U+0131, U+017F, U+212A and U+662F, the decimal digits U+0660 to U+0669, the
  digit U+00B2, lower case of U+00C9, and the four non-ASCII characters that match an
  ASCII letter under \<^verbatim>\<open>re.IGNORECASE\<close>.
\<close>

definition ucd_excerpt :: unicode where
  "ucd_excerpt =
     \<lparr>uc_lower = map (\<lambda>c. if c = 201 then 233 else lower_cp c),
      uc_isalpha = (\<lambda>c. c = 201 \<or> c = 233 \<or> c = 304 \<or> c = 305 \<or> c = 383 \<or> c = 8490 \<or> c = 26159),
      uc_isdecimal = (\<lambda>c. 1632 \<le> c \<and> c \<le> 1641),
      uc_isdigit = (\<lambda>c. (1632 \<le> c \<and> c \<le> 1641) \<or> c = 178),
      uc_isnumeric = (\<lambda>c. (1632 \<le> c \<and> c \<le> 1641) \<or> c = 178),
      uc_ignorecase = (\<lambda>p c. (lower_cp p = 105 \<and> (c = 304 \<or> c = 305))
                              \<or> (lower_cp p = 115 \<and> c = 383) \<or> (lower_cp p = 107 \<and> c = 8490))\<rparr>"

text \<open>
  The white space of \<^verbatim>\<open>str.strip\<close> and \<^verbatim>\<open>str.isspace\<close>, which is the class
  \<^verbatim>\<open>\s\<close> of \<^verbatim>\<open>re\<close> as well.
\<close>

definition isspace :: "uchar \<Rightarrow> bool" where
  "isspace c = ((9 \<le> c \<and> c \<le> 13) \<or> (28 \<le> c \<and> c \<le> 32) \<or> c = 133 \<or> c = 160
     \<or> c = 5760 \<or> (8192 \<le> c \<and> c \<le> 8202) \<or> c = 8232 \<or> c = 8233 \<or> c = 8239
     \<or> c = 8287 \<or> c = 12288)"

definition strip :: "ustring \<Rightarrow> ustring" where
  "strip s = rev (dropWhile isspace (rev (dropWhile isspace s)))"

text \<open>\<^verbatim>\<open>sub in s\<close>: \<open>sub\<close> occurs in \<open>s\<close> as a contiguous substring.\<close>

fun contains :: "ustring \<Rightarrow> ustring \<Rightarrow> bool" where
  "contains [] sub = (sub = [])"
| "contains (c # cs) sub = (take (length sub) (c # cs) = sub \<or> contains cs sub)"

text \<open>\<^verbatim>\<open>s.find(sub)\<close>: the lowest index at which \<open>sub\<close> occurs, \<open>None\<close> for Python's -1.\<close>

fun str_find :: "ustring \<Rightarrow> ustring \<Rightarrow> nat option" where
  "str_find [] sub = (if sub = [] then Some 0 else None)"
| "str_find (c # cs) sub =
     (if take (length sub) (c # cs) = sub then Some 0
      else map_option Suc (str_find cs sub))"

text \<open>Truthiness of an optional string: \<^verbatim>\<open>if x:\<close> holds for a non-empty string only.\<close>

fun truthy :: "ustring option \<Rightarrow> bool" where
  "truthy None = False"
| "truthy (Some s) = (s \<noteq> [])"

text \<open>
  \<^verbatim>\<open>list(set(xs))\<close>: the elements of \<open>xs\<close> without duplicates.  Python leaves the order
  of a set unspecified; the statements below use only \<open>set\<close> and \<open>distinct\<close> of the result.
\<close>

definition list_set :: "'a list \<Rightarrow> 'a list" where
  "list_set xs = remdups xs"

section \<open>The contact cache (services/contacts.py)\<close>

type_synonym timestamp = nat

record contact =
  cid :: ustring
  name :: "ustring option"
  phones :: "ustring list"
  emails :: "ustring list"
  aliases :: "ustring list"
  updated_at :: timestamp
  created_at :: timestamp

record contact_upsert =
  u_name :: "ustring option"
  u_phones :: "ustring list"
  u_emails :: "ustring list"
  u_aliases :: "ustring list"

datatype resolve_status = Ok | Ambiguous | Not_found

record contact_resolve_result =
  status :: resolve_status
  contact :: "contact option"
  candidates :: "contact list"

text \<open>
  The three dictionaries of \<^verbatim>\<open>ContactCache\<close>.  A Python \<^verbatim>\<open>dict\<close> keeps insertion
  order, which \<^verbatim>\<open>resolve\<close> observes through \<^verbatim>\<open>_contacts.values()\<close>, so each is an
  association list: \<^verbatim>\<open>d[k] = v\<close> is \<open>AList.update\<close> (in place for a present key, at
  the end otherwise), \<^verbatim>\<open>d.pop(k, None)\<close> is \<open>AList.delete\<close>, \<^verbatim>\<open>d.get(k)\<close> is
  \<open>map_of\<close>.  Writing the JSON file (\<^verbatim>\<open>_save\<close>) does not touch the dictionaries and
  its failure is logged, not raised, so it is left out of the state.
\<close>

record cache =
  contacts :: "(ustring \<times> contact) list"
  phone_index :: "(ustring \<times> ustring) list"
  email_index :: "(ustring \<times> ustring) list"

definition empty_cache :: cache where
  "empty_cache = \<lparr>contacts = [], phone_index = [], email_index = []\<rparr>"

definition normalize_phone :: "unicode \<Rightarrow> ustring \<Rightarrow> ustring" where
  "normalize_phone U phone0 =
     (let phone = strip phone0 in
      case phone of
        c # rest \<Rightarrow> if c = 43 then 43 # filter (isdigit U) rest else filter (isdigit U) phone
      | [] \<Rightarrow> filter (isdigit U) phone)"

definition index_contact :: "unicode \<Rightarrow> cache \<Rightarrow> contact \<Rightarrow> cache" where
  "index_contact U S c =
     S\<lparr>phone_index :=
         fold (\<lambda>phone idx. AList.update (normalize_phone U phone) (cid c) idx)
              (phones c) (phone_index S),
       email_index :=
         fold (\<lambda>email idx. AList.update (lower U email) (cid c) idx)
              (emails c) (email_index S)\<rparr>"

definition unindex_contact :: "unicode \<Rightarrow> cache \<Rightarrow> contact \<Rightarrow> cache" where
  "unindex_contact U S c =
     S\<lparr>phone_index :=
         fold (\<lambda>phone idx. AList.delete (normalize_phone U phone) idx)
              (phones c) (phone_index S),
       email_index :=
         fold (\<lambda>email idx. AList.delete (lower U email) idx)
              (emails c) (email_index S)\<rparr>"

text \<open>The two lookup loops of \<^verbatim>\<open>upsert\<close>: the id of the first key that is indexed.\<close>

fun first_indexed :: "(ustring \<times> ustring) list \<Rightarrow> ustring list \<Rightarrow> ustring option" where
  "first_indexed idx [] = None"
| "first_indexed idx (k # ks) =
     (case map_of idx k of Some i \<Rightarrow> Some i | None \<Rightarrow> first_indexed idx ks)"

definition find_existing :: "unicode \<Rightarrow> cache \<Rightarrow> contact_upsert \<Rightarrow> ustring option" where
  "find_existing U S d =
     (let existing_id = first_indexed (phone_index S) (map (normalize_phone U) (u_phones d)) in
      if \<not> truthy existing_id then
        (case first_indexed (email_index S) (map (lower U) (u_emails d)) of
           Some i \<Rightarrow> Some i
         | None \<Rightarrow> existing_id)
      else existing_id)"

text \<open>\<^verbatim>\<open>data.name or contact.name\<close>.\<close>

definition name_or :: "ustring option \<Rightarrow> ustring option \<Rightarrow> ustring option" where
  "name_or new old = (if truthy new then new else old)"

text \<open>
  \<^verbatim>\<open>upsert\<close>; \<open>new_id\<close> is the value \<^verbatim>\<open>str(uuid4())\<close> gives the new contact, \<open>now\<close>
  the first reading of \<^verbatim>\<open>datetime.now()\<close> in the call and \<open>now2\<close> the second.  The
  update branch reads the clock once; in the create branch the two default factories of
  \<^verbatim>\<open>Contact\<close> read it one after the other, for \<^verbatim>\<open>updated_at\<close> and then for
  \<^verbatim>\<open>created_at\<close>.  The result is the returned contact and the cache after the call.
\<close>

definition upsert ::
  "unicode \<Rightarrow> cache \<Rightarrow> contact_upsert \<Rightarrow> ustring \<Rightarrow> timestamp \<Rightarrow> timestamp \<Rightarrow> contact \<times> cache" where
  "upsert U S d new_id now now2 =
     (let existing_id = find_existing U S d in
      case (if truthy existing_id then map_of (contacts S) (the existing_id) else None) of
        Some old \<Rightarrow>
          (let S1 = unindex_contact U S old;
               c = old\<lparr>name := name_or (u_name d) (name old),
                       phones := list_set (phones old @ u_phones d),
                       emails := list_set (emails old @ u_emails d),
                       aliases := list_set (aliases old @ u_aliases d),
                       updated_at := now\<rparr>;
               S2 = S1\<lparr>contacts := AList.update (the existing_id) c (contacts S1)\<rparr>
           in (c, index_contact U S2 c))
      | None \<Rightarrow>
          (let c = \<lparr>cid = new_id, name = u_name d, phones = u_phones d,
                    emails = u_emails d, aliases = u_aliases d,
                    updated_at = now, created_at = now2\<rparr>;
               S1 = S\<lparr>contacts := AList.update (cid c) c (contacts S)\<rparr>
           in (c, index_contact U S1 c)))"

text \<open>\<^verbatim>\<open>delete\<close>: the returned flag and the cache after the call.\<close>

definition delete :: "unicode \<Rightarrow> cache \<Rightarrow> ustring \<Rightarrow> bool \<times> cache" where
  "delete U S contact_id =
     (case map_of (contacts S) contact_id of
        Some c \<Rightarrow>
          (True, unindex_contact U (S\<lparr>contacts := AList.delete contact_id (contacts S)\<rparr>) c)
      | None \<Rightarrow> (False, S))"

definition clear :: "cache \<Rightarrow> cache" where
  "clear S = S\<lparr>contacts := [], phone_index := [], email_index := []\<rparr>"

text \<open>The index probes of \<^verbatim>\<open>resolve\<close>: both walrus tests must be truthy.\<close>

definition index_hit :: "cache \<Rightarrow> (ustring \<times> ustring) list \<Rightarrow> ustring \<Rightarrow> contact option" where
  "index_hit S idx k =
     (case map_of idx k of
        Some contact_id \<Rightarrow> if contact_id \<noteq> [] then map_of (contacts S) contact_id else None
      | None \<Rightarrow> None)"

definition exact_match :: "unicode \<Rightarrow> ustring \<Rightarrow> contact \<Rightarrow> bool" where
  "exact_match U name_lower c = (truthy (name c) \<and> lower U (the (name c)) = name_lower)"

definition substring_match :: "unicode \<Rightarrow> ustring \<Rightarrow> contact \<Rightarrow> bool" where
  "substring_match U name_lower c =
     ((truthy (name c) \<and> contains (lower U (the (name c))) name_lower)
      \<or> (\<exists>alias \<in> set (aliases c). contains (lower U alias) name_lower))"

text \<open>The three shapes of \<^verbatim>\<open>ContactResolveResult\<close> that \<^verbatim>\<open>resolve\<close> builds.\<close>

definition result_ok :: "contact \<Rightarrow> contact_resolve_result" where
  "result_ok c = \<lparr>status = Ok, contact = Some c, candidates = []\<rparr>"

definition result_ambiguous :: "contact list \<Rightarrow> contact_resolve_result" where
  "result_ambiguous cs = \<lparr>status = Ambiguous, contact = None, candidates = cs\<rparr>"

definition result_not_found :: contact_resolve_result where
  "result_not_found = \<lparr>status = Not_found, contact = None, candidates = []\<rparr>"

definition resolve_name :: "unicode \<Rightarrow> cache \<Rightarrow> ustring \<Rightarrow> contact_resolve_result" where
  "resolve_name U S nm =
     (let name_lower = lower U nm;
          exact_matches = filter (exact_match U name_lower) (map snd (contacts S)) in
      if length exact_matches = 1 then result_ok (hd exact_matches)
      else if length exact_matches > 1 then result_ambiguous exact_matches
      else
        (let substring_matches = filter (substring_match U name_lower) (map snd (contacts S)) in
         if length substring_matches = 1 then result_ok (hd substring_matches)
         else if length substring_matches > 1 then result_ambiguous substring_matches
         else result_not_found))"

text \<open>
  \<^verbatim>\<open>resolve\<close> assigns to nothing of the cache, so it is a function of the cache that
  returns the result only.
\<close>

definition resolve ::
  "unicode \<Rightarrow> cache \<Rightarrow> ustring option \<Rightarrow> ustring option \<Rightarrow> ustring option
     \<Rightarrow> contact_resolve_result" where
  "resolve U S phone email nm =
     (case (if truthy phone then index_hit S (phone_index S) (normalize_phone U (the phone))
            else None) of
        Some c \<Rightarrow> result_ok c
      | None \<Rightarrow>
     (case (if truthy email then index_hit S (email_index S) (lower U (the email)) else None) of
        Some c \<Rightarrow> result_ok c
      | None \<Rightarrow> if truthy nm then resolve_name U S (the nm) else result_not_found))"

subsection \<open>Reachable caches and what the claims say about them\<close>

text \<open>
  The caches that a sequence of \<^verbatim>\<open>upsert\<close>, \<^verbatim>\<open>delete\<close> and \<^verbatim>\<open>clear\<close> calls builds from
  the empty cache.  \<^verbatim>\<open>str(uuid4())\<close> is taken to give a non-empty id that no contact of the
  cache has.
\<close>

inductive reachable :: "unicode \<Rightarrow> cache \<Rightarrow> bool" for U where
  reach_empty: "reachable U empty_cache"
| reach_upsert: "reachable U S \<Longrightarrow> new_id \<noteq> [] \<Longrightarrow> map_of (contacts S) new_id = None
     \<Longrightarrow> reachable U (snd (upsert U S d new_id now now2))"
| reach_delete: "reachable U S \<Longrightarrow> reachable U (snd (delete U S contact_id))"
| reach_clear: "reachable U S \<Longrightarrow> reachable U (clear S)"

text \<open>
  The invariant the induction carries: a contact is stored under its own non-empty id, and
  an index entry points to a stored contact that has a phone (email) with that key.
\<close>

definition cache_inv :: "unicode \<Rightarrow> cache \<Rightarrow> bool" where
  "cache_inv U S \<longleftrightarrow>
     (\<forall>i c. map_of (contacts S) i = Some c \<longrightarrow> cid c = i \<and> i \<noteq> []) \<and>
     (\<forall>k i. map_of (phone_index S) k = Some i \<longrightarrow>
        (\<exists>c. map_of (contacts S) i = Some c \<and> k \<in> normalize_phone U ` set (phones c))) \<and>
     (\<forall>k i. map_of (email_index S) k = Some i \<longrightarrow>
        (\<exists>c. map_of (contacts S) i = Some c \<and> k \<in> lower U ` set (emails c)))"

text \<open>
  First half of the index invariant: every key of an index maps to the id of a contact in
  \<open>contacts\<close>.
\<close>

definition index_sound :: "cache \<Rightarrow> bool" where
  "index_sound S \<longleftrightarrow>
     (\<forall>k \<in> set (map fst (phone_index S)).
        case map_of (phone_index S) k of Some i \<Rightarrow> map_of (contacts S) i \<noteq> None | None \<Rightarrow> False) \<and>
     (\<forall>k \<in> set (map fst (email_index S)).
        case map_of (email_index S) k of Some i \<Rightarrow> map_of (contacts S) i \<noteq> None | None \<Rightarrow> False)"

text \<open>
  Second half, for one contact and for all of them: each normalized phone and lowercased
  email is in the index and maps to the id of the contact.
\<close>

definition contact_indexed :: "unicode \<Rightarrow> cache \<Rightarrow> contact \<Rightarrow> bool" where
  "contact_indexed U S c \<longleftrightarrow>
     (\<forall>p \<in> set (phones c). map_of (phone_index S) (normalize_phone U p) = Some (cid c)) \<and>
     (\<forall>e \<in> set (emails c). map_of (email_index S) (lower U e) = Some (cid c))"

definition contacts_indexed :: "unicode \<Rightarrow> cache \<Rightarrow> bool" where
  "contacts_indexed U S \<longleftrightarrow> (\<forall>c \<in> set (map snd (contacts S)). contact_indexed U S c)"

text \<open>
  An upsert whose keys agree with its match: every supplied phone (email) whose
  normalized (lowercased) form is indexed is indexed to the contact that the upsert
  matches.  When the upsert matches nothing, none of its keys is indexed.
\<close>

definition keys_agree :: "unicode \<Rightarrow> cache \<Rightarrow> contact_upsert \<Rightarrow> bool" where
  "keys_agree U S d \<longleftrightarrow>
     (\<forall>p \<in> set (u_phones d).
        map_of (phone_index S) (normalize_phone U p) = None \<or>
        map_of (phone_index S) (normalize_phone U p) = find_existing U S d) \<and>
     (\<forall>e \<in> set (u_emails d).
        map_of (email_index S) (lower U e) = None \<or>
        map_of (email_index S) (lower U e) = find_existing U S d)"

text \<open>
  The caches built by calls in which every upsert has keys that agree with its match.
\<close>

inductive reachable_agreeing :: "unicode \<Rightarrow> cache \<Rightarrow> bool" for U where
  agree_empty: "reachable_agreeing U empty_cache"
| agree_upsert: "reachable_agreeing U S \<Longrightarrow> new_id \<noteq> [] \<Longrightarrow> map_of (contacts S) new_id = None
     \<Longrightarrow> keys_agree U S d \<Longrightarrow> reachable_agreeing U (snd (upsert U S d new_id now now2))"
| agree_delete: "reachable_agreeing U S \<Longrightarrow> reachable_agreeing U (snd (delete U S contact_id))"
| agree_clear: "reachable_agreeing U S \<Longrightarrow> reachable_agreeing U (clear S)"

text \<open>
  What an upsert leaves alone: an index entry whose key is not a normalized phone
  (lowercased email) of the returned contact is the same before and after the call.
\<close>

definition index_frame :: "unicode \<Rightarrow> cache \<Rightarrow> contact \<Rightarrow> cache \<Rightarrow> bool" where
  "index_frame U S c S' \<longleftrightarrow>
     (\<forall>k. k \<notin> normalize_phone U ` set (phones c) \<longrightarrow>
        map_of (phone_index S') k = map_of (phone_index S) k) \<and>
     (\<forall>k. k \<notin> lower U ` set (emails c) \<longrightarrow>
        map_of (email_index S') k = map_of (email_index S) k)"

text \<open>
  An index entry points to a contact that carries the key.
\<close>

definition index_owned :: "unicode \<Rightarrow> cache \<Rightarrow> bool" where
  "index_owned U S \<longleftrightarrow>
     (\<forall>k \<in> set (map fst (phone_index S)).
        case map_of (phone_index S) k of
          Some i \<Rightarrow> (case map_of (contacts S) i of
                       Some c \<Rightarrow> k \<in> set (map (normalize_phone U) (phones c)) | None \<Rightarrow> False)
        | None \<Rightarrow> False) \<and>
     (\<forall>k \<in> set (map fst (email_index S)).
        case map_of (email_index S) k of
          Some i \<Rightarrow> (case map_of (contacts S) i of
                       Some c \<Rightarrow> k \<in> set (map (lower U) (emails c)) | None \<Rightarrow> False)
        | None \<Rightarrow> False)"

text \<open>
  Three calls: phone 1 creates contact a, phone 2 creates contact b, and an upsert of the
  phones 1 and 2 finds a through phone 1 and merges both phones into it.
\<close>

definition up :: "ustring list \<Rightarrow> contact_upsert" where
  "up ps = \<lparr>u_name = None, u_phones = ps, u_emails = [], u_aliases = []\<rparr>"

definition cache_a :: "unicode \<Rightarrow> cache" where
  "cache_a U = snd (upsert U empty_cache (up [ascii ''1'']) (ascii ''a'') 0 1)"

definition cache_b :: "unicode \<Rightarrow> cache" where
  "cache_b U = snd (upsert U (cache_a U) (up [ascii ''2'']) (ascii ''b'') 2 3)"

definition cache_c :: "unicode \<Rightarrow> cache" where
  "cache_c U = snd (upsert U (cache_b U) (up [ascii ''1'', ascii ''2'']) (ascii ''c'') 4 5)"

text \<open>
  The contact that the update branch and the create branch of \<open>upsert\<close> return.
\<close>

definition merged :: "contact \<Rightarrow> contact_upsert \<Rightarrow> timestamp \<Rightarrow> contact" where
  "merged old d now =
     old\<lparr>name := name_or (u_name d) (name old),
         phones := list_set (phones old @ u_phones d),
         emails := list_set (emails old @ u_emails d),
         aliases := list_set (aliases old @ u_aliases d),
         updated_at := now\<rparr>"

definition created :: "contact_upsert \<Rightarrow> ustring \<Rightarrow> timestamp \<Rightarrow> timestamp \<Rightarrow> contact" where
  "created d new_id now now2 =
     \<lparr>cid = new_id, name = u_name d, phones = u_phones d, emails = u_emails d,
      aliases = u_aliases d, updated_at = now, created_at = now2\<rparr>"







text \<open>
  The caches of the unit tests: John Doe alone, then John Doe and John Smith.
\<close>

definition named :: "string \<Rightarrow> string \<Rightarrow> contact_upsert" where
  "named n p = \<lparr>u_name = Some (ascii n), u_phones = [ascii p], u_emails = [], u_aliases = []\<rparr>"

definition doe_cache :: "unicode \<Rightarrow> cache" where
  "doe_cache U =
     snd (upsert U empty_cache (named ''John Doe'' ''+15551234567'') (ascii ''id-1'') 1 2)"

definition john_cache :: "unicode \<Rightarrow> cache" where
  "john_cache U =
     snd (upsert U (doe_cache U) (named ''John Smith'' ''+15559999999'') (ascii ''id-2'') 3 4)"

text \<open>
  The id that an upsert matches: the index entry of the first supplied phone whose
  normalized form is indexed or, when no phone is, of the first supplied email whose
  lowercased form is indexed.
\<close>

definition matched_id :: "unicode \<Rightarrow> cache \<Rightarrow> contact_upsert \<Rightarrow> ustring option" where
  "matched_id U S d =
     (case filter (\<lambda>p. map_of (phone_index S) (normalize_phone U p) \<noteq> None) (u_phones d) of
        p # _ \<Rightarrow> map_of (phone_index S) (normalize_phone U p)
      | [] \<Rightarrow>
          (case filter (\<lambda>e. map_of (email_index S) (lower U e) \<noteq> None) (u_emails d) of
             e # _ \<Rightarrow> map_of (email_index S) (lower U e)
           | [] \<Rightarrow> None))"

text \<open>
  The second upsert of the unit test \<^verbatim>\<open>test_upsert_updates_existing\<close>.
\<close>

definition john_d :: contact_upsert where
  "john_d = \<lparr>u_name = Some (ascii ''John D.''), u_phones = [ascii ''+15551234567''],
             u_emails = [ascii ''john@example.com''], u_aliases = []\<rparr>"



text \<open>
  A cache with one contact whose phone is written with the digits U+0661, U+0662, U+0663.
\<close>

definition arabic_cache :: "unicode \<Rightarrow> cache" where
  "arabic_cache U = snd (upsert U empty_cache (up [[1633, 1634, 1635]]) (ascii ''id-4'') 9 10)"
section \<open>Text cleaning and link context (services/imsg.py)\<close>

text \<open>
  \<^verbatim>\<open>_STRIP_CHARS\<close>: U+0000, U+FFFC, U+FFFD, U+200B, U+200C, U+200D and U+FEFF.
\<close>

definition STRIP_CHARS :: ustring where
  "STRIP_CHARS = [0, 65532, 65533, 8203, 8204, 8205, 65279]"

definition clean_text :: "ustring \<Rightarrow> ustring" where
  "clean_text text =
     (if text = [] then [] else strip (filter (\<lambda>c. c \<notin> set STRIP_CHARS) text))"

text \<open>\<^verbatim>\<open>s[start:end]\<close> for \<open>0 \<le> start\<close> and \<open>0 \<le> end\<close>.\<close>

definition slice :: "'a list \<Rightarrow> nat \<Rightarrow> nat \<Rightarrow> 'a list" where
  "slice s start end = take (end - start) (drop start s)"

text \<open>
  \<^verbatim>\<open>_get_link_context\<close>.  The width is a natural number: the one caller passes the
  default of 50.  \<^verbatim>\<open>max(0, idx - context_chars)\<close> is written out.
\<close>

definition get_link_context :: "ustring \<Rightarrow> ustring \<Rightarrow> nat \<Rightarrow> ustring" where
  "get_link_context text url context_chars =
     (if text = [] then []
      else
        let cleaned = clean_text text in
        case str_find cleaned url of
          None \<Rightarrow> if length cleaned > 100 then take 100 cleaned else cleaned
        | Some idx \<Rightarrow>
            let start = (if context_chars \<le> idx then idx - context_chars else 0);
                end = min (length cleaned) (idx + length url + context_chars);
                context = slice cleaned start end;
                context = (if start > 0 then ascii ''...'' @ context else context);
                context = (if end < length cleaned then context @ ascii ''...'' else context)
            in context)"



section \<open>The process adapter (services/imsg.py)\<close>

text \<open>\<^verbatim>\<open>str(n)\<close> for an integer: decimal digits with a minus sign for a negative one.\<close>

fun str_nat :: "nat \<Rightarrow> ustring" where
  "str_nat n = (if n < 10 then [48 + n] else str_nat (n div 10) @ [48 + n mod 10])"

definition str_int :: "int \<Rightarrow> ustring" where
  "str_int i = (if i < 0 then 45 # str_nat (nat (- i)) else str_nat (nat i))"

text \<open>
  \<^verbatim>\<open>shlex.join\<close>: each argument is quoted unless it is non-empty and made of ASCII
  letters, digits and the characters \<^verbatim>\<open>_@%+=:,./-\<close> only.
\<close>

definition shlex_safe :: "uchar \<Rightarrow> bool" where
  "shlex_safe c = ((48 \<le> c \<and> c \<le> 57) \<or> (65 \<le> c \<and> c \<le> 90) \<or> (97 \<le> c \<and> c \<le> 122)
     \<or> c \<in> set (ascii ''_@%+=:,./-''))"

definition shlex_quote :: "ustring \<Rightarrow> ustring" where
  "shlex_quote s =
     (if s = [] then ascii [CHR 0x27, CHR 0x27]
      else if list_all shlex_safe s then s
      else [39] @ concat (map (\<lambda>c. if c = 39 then [39, 34, 39, 34, 39] else [c]) s) @ [39])"

fun join_with :: "ustring \<Rightarrow> ustring list \<Rightarrow> ustring" where
  "join_with sep [] = []"
| "join_with sep [x] = x"
| "join_with sep (x # y # ys) = x @ sep @ join_with sep (y # ys)"

definition shlex_join :: "ustring list \<Rightarrow> ustring" where
  "shlex_join cmd = join_with [32] (map shlex_quote cmd)"

text \<open>\<^verbatim>\<open>s.split(sep)\<close> for a one-character separator.\<close>

fun split_on :: "uchar \<Rightarrow> ustring \<Rightarrow> ustring list" where
  "split_on sep [] = [[]]"
| "split_on sep (c # cs) =
     (if c = sep then [] # split_on sep cs
      else (case split_on sep cs of
              w # ws \<Rightarrow> (c # w) # ws
            | [] \<Rightarrow> [[c]]))"

text \<open>
  What \<^verbatim>\<open>create_subprocess_exec\<close> and \<^verbatim>\<open>communicate\<close> under \<^verbatim>\<open>wait_for\<close> end with:
  the binary is missing, the timeout expires (the process is then killed), or the
  process exits with a return code and its two streams, decoded as UTF-8 with
  replacement.
\<close>

datatype proc_outcome =
    File_not_found
  | Timeout_error
  | Exited int ustring ustring

record imsg_error =
  message :: ustring
  code :: int
  stderr :: ustring
  command :: "ustring option"

text \<open>What \<^verbatim>\<open>json.loads\<close> makes of a line: an object, an array, or another value.\<close>

datatype 'r loaded = Dict 'r | List "'r list" | Other

definition not_found_error :: "ustring \<Rightarrow> imsg_error" where
  "not_found_error cmd_str =
     \<lparr>message = ascii ''imsg not found. Install with: brew install steipete/tap/imsg'',
      code = - 1, stderr = [], command = Some cmd_str\<rparr>"

definition timeout_error :: "ustring \<Rightarrow> ustring \<Rightarrow> imsg_error" where
  "timeout_error timeout_text cmd_str =
     \<lparr>message = ascii ''imsg timed out after '' @ timeout_text @ ascii '' seconds'',
      code = - 1, stderr = [], command = Some cmd_str\<rparr>"

text \<open>The NDJSON loop of \<^verbatim>\<open>_run_imsg\<close>; \<open>None\<close> from \<open>loads\<close> is a \<^verbatim>\<open>JSONDecodeError\<close>.\<close>

fun parse_ndjson :: "(ustring \<Rightarrow> 'r loaded option) \<Rightarrow> ustring list \<Rightarrow> 'r list" where
  "parse_ndjson loads [] = []"
| "parse_ndjson loads (line0 # rest) =
     (let line = strip line0 in
      if line = [] then parse_ndjson loads rest
      else (case loads line of
              Some (Dict obj) \<Rightarrow> obj # parse_ndjson loads rest
            | Some (List objs) \<Rightarrow> objs @ parse_ndjson loads rest
            | Some Other \<Rightarrow> parse_ndjson loads rest
            | None \<Rightarrow> parse_ndjson loads rest))"

text \<open>
  \<^verbatim>\<open>_run_imsg\<close> (structured mode) and \<^verbatim>\<open>_run_imsg_raw\<close> as functions of the command line
  \<open>cmd\<close> (binary and arguments), the text of the timeout in the message, and the outcome
  of the process.  An \<^verbatim>\<open>ImsgError\<close> raised is \<open>Inl\<close>.
\<close>

definition run_imsg ::
  "(ustring \<Rightarrow> 'r loaded option) \<Rightarrow> ustring list \<Rightarrow> ustring \<Rightarrow> proc_outcome
     \<Rightarrow> imsg_error + 'r list" where
  "run_imsg loads cmd timeout_text outcome =
     (let cmd_str = shlex_join cmd in
      case outcome of
        File_not_found \<Rightarrow> Inl (not_found_error cmd_str)
      | Timeout_error \<Rightarrow> Inl (timeout_error timeout_text cmd_str)
      | Exited returncode stdout_str stderr_str \<Rightarrow>
          if returncode \<noteq> 0 then
            Inl \<lparr>message = ascii ''imsg failed with exit code '' @ str_int returncode,
                 code = (if returncode \<noteq> 0 then returncode else - 1),
                 stderr = strip stderr_str,
                 command = Some cmd_str\<rparr>
          else Inr (parse_ndjson loads (split_on 10 (strip stdout_str))))"

definition run_imsg_raw ::
  "ustring list \<Rightarrow> ustring \<Rightarrow> proc_outcome \<Rightarrow> imsg_error + ustring" where
  "run_imsg_raw cmd timeout_text outcome =
     (let cmd_str = shlex_join cmd in
      case outcome of
        File_not_found \<Rightarrow> Inl (not_found_error cmd_str)
      | Timeout_error \<Rightarrow> Inl (timeout_error timeout_text cmd_str)
      | Exited returncode stdout_str stderr_str \<Rightarrow>
          if returncode \<noteq> 0 then
            (let error_output =
                   (if strip stderr_str \<noteq> [] then strip stderr_str else strip stdout_str) in
             Inl \<lparr>message = ascii ''imsg failed with exit code '' @ str_int returncode,
                  code = (if returncode \<noteq> 0 then returncode else - 1),
                  stderr = error_output,
                  command = Some cmd_str\<rparr>)
          else Inr stdout_str)"

text \<open>\<^verbatim>\<open>ImsgError.to_dict\<close>: the error shape handed to the HTTP layer.\<close>

record error_dict =
  d_error :: ustring
  d_code :: int
  d_stderr :: "ustring option"
  d_hint :: "ustring option"

definition to_dict :: "unicode \<Rightarrow> imsg_error \<Rightarrow> error_dict" where
  "to_dict U e =
     (let stderr_lower = lower U (stderr e) in
      \<lparr>d_error = message e, d_code = code e,
       d_stderr = (if stderr e \<noteq> [] then Some (take 500 (stderr e)) else None),
       d_hint =
         (if contains stderr_lower (ascii ''full disk access'')
             \<or> contains stderr_lower (ascii ''permission'')
          then Some (ascii (''imsg requires Full Disk Access. Go to System Settings > '' @
                           ''Privacy & Security > Full Disk Access and enable your terminal.''))
          else if contains stderr_lower (ascii ''automation'')
          then Some (ascii (''imsg requires Automation permission to control Messages.app. '' @
                           ''Grant permission when prompted or check System Settings.''))
          else None)\<rparr>)"

text \<open>
  A failing call: \<^verbatim>\<open>imsg chats --json\<close> exits with code 1, writes its message to
  stdout and nothing to stderr.
\<close>

definition failing_cmd :: "ustring list" where
  "failing_cmd = [ascii ''imsg'', ascii ''chats'', ascii ''--json'']"

definition failing_outcome :: proc_outcome where
  "failing_outcome = Exited 1 (ascii ''permission denied'') []"

section \<open>Regular expressions and the PII filter (services/pii.py)\<close>

text \<open>
  The constructs the patterns of the program use.  \<^verbatim>\<open>re\<close> is a backtracking matcher:
  what a substitution replaces is the first match in the order in which the alternatives
  are tried, with greedy repetition trying the longest first.  \<open>Cls\<close> is one character
  of a class, \<open>Opt\<close> and \<open>Star\<close> are the greedy \<^verbatim>\<open>?\<close> and \<^verbatim>\<open>*\<close>.
\<close>

datatype regex =
    Eps
  | Cls "uchar \<Rightarrow> bool"
  | Word_boundary
  | Bol
  | Eol
  | Seq regex regex
  | Alt regex regex
  | Opt regex
  | Star regex

text \<open>
  A position in the subject string: the character before it, if any, and the rest of the
  string.
\<close>

type_synonym mstate = "uchar option \<times> ustring"

text \<open>
  The patterns of the program are \<^verbatim>\<open>str\<close> patterns compiled without \<^verbatim>\<open>re.ASCII\<close>, so
  their classes are the Unicode ones: \<^verbatim>\<open>\w\<close> is an alphanumeric character or the
  underscore, \<^verbatim>\<open>\d\<close> a decimal digit, \<^verbatim>\<open>\s\<close> white space.  \<^verbatim>\<open>\b\<close> holds where exactly
  one side is a word character.
\<close>

definition is_word :: "unicode \<Rightarrow> uchar \<Rightarrow> bool" where
  "is_word U c = (isalnum U c \<or> c = 95)"

fun word_before :: "unicode \<Rightarrow> uchar option \<Rightarrow> bool" where
  "word_before U None = False"
| "word_before U (Some c) = is_word U c"

fun word_after :: "unicode \<Rightarrow> ustring \<Rightarrow> bool" where
  "word_after U [] = False"
| "word_after U (c # cs) = is_word U c"

text \<open>
  \<open>ends r st\<close>: the positions at which a match of \<open>r\<close> that starts at \<open>st\<close> can end, in the
  order in which the matcher finds them.  An iteration of \<open>Star\<close> that consumes nothing is
  not repeated.
\<close>

function ends :: "unicode \<Rightarrow> regex \<Rightarrow> mstate \<Rightarrow> mstate list" where
  "ends U Eps st = [st]"
| "ends U (Cls P) (p, []) = []"
| "ends U (Cls P) (p, c # cs) = (if P c then [(Some c, cs)] else [])"
| "ends U Word_boundary (p, s) = (if word_before U p \<noteq> word_after U s then [(p, s)] else [])"
| "ends U Bol (p, s) = (if p = None then [(p, s)] else [])"
| "ends U Eol (p, s) = (if s = [] \<or> s = [10] then [(p, s)] else [])"
| "ends U (Seq a b) st = concat (map (ends U b) (ends U a st))"
| "ends U (Alt a b) st = ends U a st @ ends U b st"
| "ends U (Opt a) st = ends U a st @ [st]"
| "ends U (Star a) st =
     concat (map (ends U (Star a))
       (filter (\<lambda>st'. length (snd st') < length (snd st)) (ends U a st))) @ [st]"
  by pat_completeness auto
termination
  by (relation "measures [\<lambda>(U, r, st). size r, \<lambda>(U, r, st). length (snd st)]") auto


text \<open>
  \<^verbatim>\<open>pattern.sub(repl, s)\<close> for a replacement without group references: scanning from the
  left, the first match found at a position is replaced and the scan goes on after it; a
  position without a match copies its character.  An empty match is replaced and the
  character after it is copied.
\<close>

function sub_from :: "unicode \<Rightarrow> regex \<Rightarrow> ustring \<Rightarrow> uchar option \<Rightarrow> ustring \<Rightarrow> ustring" where
  "sub_from U r repl p [] = (if ends U r (p, []) \<noteq> [] then repl else [])"
| "sub_from U r repl p (c # cs) =
     (case ends U r (p, c # cs) of
        (p', s') # _ \<Rightarrow>
          if length s' < length (c # cs) then repl @ sub_from U r repl p' s'
          else repl @ c # sub_from U r repl (Some c) cs
      | [] \<Rightarrow> c # sub_from U r repl (Some c) cs)"
  by pat_completeness auto
termination
  by (relation "measure (\<lambda>(U, r, repl, p, s). length s)") auto

definition re_sub :: "unicode \<Rightarrow> regex \<Rightarrow> ustring \<Rightarrow> ustring \<Rightarrow> ustring" where
  "re_sub U r repl s = sub_from U r repl None s"

text \<open>
  Notation of patterns: sequences, alternatives, \<^verbatim>\<open>r{n}\<close>, \<^verbatim>\<open>r{0,n}\<close>, \<^verbatim>\<open>r{lo,hi}\<close>,
  \<^verbatim>\<open>r{lo,}\<close>, \<^verbatim>\<open>r+\<close>, a literal character, a literal string, and a literal string
  under \<^verbatim>\<open>re.IGNORECASE\<close>.
\<close>

fun seqs :: "regex list \<Rightarrow> regex" where
  "seqs [] = Eps"
| "seqs [r] = r"
| "seqs (r # rs) = Seq r (seqs rs)"

fun alts :: "regex list \<Rightarrow> regex" where
  "alts [] = Cls (\<lambda>c. False)"
| "alts [r] = r"
| "alts (r # rs) = Alt r (alts rs)"

fun times :: "nat \<Rightarrow> regex \<Rightarrow> regex" where
  "times 0 r = Eps"
| "times (Suc n) r = Seq r (times n r)"

fun up_to :: "nat \<Rightarrow> regex \<Rightarrow> regex" where
  "up_to 0 r = Eps"
| "up_to (Suc n) r = Opt (Seq r (up_to n r))"

definition between :: "nat \<Rightarrow> nat \<Rightarrow> regex \<Rightarrow> regex" where
  "between lo hi r = Seq (times lo r) (up_to (hi - lo) r)"

definition at_least :: "nat \<Rightarrow> regex \<Rightarrow> regex" where
  "at_least lo r = Seq (times lo r) (Star r)"

definition plus :: "regex \<Rightarrow> regex" where
  "plus r = Seq r (Star r)"

definition chr :: "uchar \<Rightarrow> regex" where
  "chr c = Cls (\<lambda>x. x = c)"

definition lit :: "ustring \<Rightarrow> regex" where
  "lit s = seqs (map chr s)"

text \<open>
  \<^verbatim>\<open>re.IGNORECASE\<close>: whether the character \<open>c\<close> matches the pattern character \<open>p\<close>, and
  whether it matches one of the characters \<open>ps\<close> of a class.  The patterns of the program
  have ASCII characters only.
\<close>

definition ignorecase :: "unicode \<Rightarrow> uchar \<Rightarrow> uchar \<Rightarrow> bool" where
  "ignorecase U p c = (if c < 128 then lower_cp c = lower_cp p else uc_ignorecase U p c)"

definition ignorecase_class :: "unicode \<Rightarrow> ustring \<Rightarrow> uchar \<Rightarrow> bool" where
  "ignorecase_class U ps c = list_ex (\<lambda>p. ignorecase U p c) ps"

definition ilit :: "unicode \<Rightarrow> ustring \<Rightarrow> regex" where
  "ilit U s = seqs (map (\<lambda>p. Cls (ignorecase U p)) s)"

text \<open>
  \<^verbatim>\<open>\d\<close>, and the six patterns of \<^verbatim>\<open>_PII_PATTERNS\<close> in their order, each
  with its replacement.  \<^verbatim>\<open>\s\<close> is \<open>isspace\<close>, \<^verbatim>\<open>\S\<close> its complement; 45 is the hyphen,
  32 the space, 46 the full stop, 35 the hash sign, 58 the colon, 95 the underscore.
\<close>

definition digit :: "unicode \<Rightarrow> regex" where
  "digit U = Cls (isdecimal U)"

definition ssn_pattern :: "unicode \<Rightarrow> regex" where
  "ssn_pattern U =
     seqs [Word_boundary, times 3 (digit U), chr 45, times 2 (digit U), chr 45, times 4 (digit U),
           Word_boundary]"

definition credit_card_pattern :: "unicode \<Rightarrow> regex" where
  "credit_card_pattern U =
     seqs [Word_boundary,
           between 3 4 (Seq (times 4 (digit U)) (Opt (Cls (\<lambda>c. c = 45 \<or> c = 32)))),
           between 1 4 (digit U), Word_boundary]"

definition bank_account_pattern :: "unicode \<Rightarrow> regex" where
  "bank_account_pattern U =
     seqs [Word_boundary, alts [ilit U (ascii ''account''), ilit U (ascii ''acct'')],
           Opt (chr 46), Star (Cls isspace), Opt (chr 35), Star (Cls isspace),
           between 8 17 (digit U), Word_boundary]"

definition routing_number_pattern :: "unicode \<Rightarrow> regex" where
  "routing_number_pattern U =
     seqs [Word_boundary, alts [ilit U (ascii ''routing''), ilit U (ascii ''aba'')],
           Opt (chr 46), Star (Cls isspace), Opt (chr 35), Star (Cls isspace),
           times 9 (digit U), Word_boundary]"

definition password_pattern :: "unicode \<Rightarrow> regex" where
  "password_pattern U =
     seqs [Word_boundary,
           alts [ilit U (ascii ''password''), ilit U (ascii ''passwd''), ilit U (ascii ''pwd''),
                 ilit U (ascii ''pin''), ilit U (ascii ''passcode'')],
           plus (Cls (\<lambda>c. c = 58 \<or> isspace c)),
           plus (Cls (\<lambda>c. \<not> isspace c))]"

definition api_key_pattern :: "unicode \<Rightarrow> regex" where
  "api_key_pattern U =
     seqs [Word_boundary,
           alts [seqs [ilit U (ascii ''api''), Opt (Cls (\<lambda>c. c = 95 \<or> c = 45)), ilit U (ascii ''key'')],
                 ilit U (ascii ''token''), ilit U (ascii ''secret''), ilit U (ascii ''bearer'')],
           plus (Cls (\<lambda>c. c = 58 \<or> isspace c)),
           at_least 20
             (Cls (ignorecase_class U
                (ascii ''ABCDEFGHIJKLMNOPQRSTUVWXYZabcdefghijklmnopqrstuvwxyz0123456789_-''))),
           Word_boundary]"

definition PII_PATTERNS :: "unicode \<Rightarrow> (regex \<times> ustring) list" where
  "PII_PATTERNS U =
     [(ssn_pattern U, ascii ''[REDACTED-SSN]''),
      (credit_card_pattern U, ascii ''[REDACTED-CC]''),
      (bank_account_pattern U, ascii ''[REDACTED-ACCOUNT]''),
      (routing_number_pattern U, ascii ''[REDACTED-ROUTING]''),
      (password_pattern U, ascii ''[REDACTED-PASSWORD]''),
      (api_key_pattern U, ascii ''[REDACTED-KEY]'')]"

text \<open>
  \<^verbatim>\<open>_filter_regex\<close>: the loop over the patterns, each applied to the result so far.
\<close>

definition filter_regex :: "unicode \<Rightarrow> ustring \<Rightarrow> ustring" where
  "filter_regex U text =
     foldl (\<lambda>result (pattern, replacement). re_sub U pattern replacement result)
       text (PII_PATTERNS U)"

text \<open>
  \<^verbatim>\<open>filter_pii\<close> with the setting \<^verbatim>\<open>settings.pii_filter\<close> as an argument.
\<close>

definition filter_pii :: "unicode \<Rightarrow> ustring \<Rightarrow> ustring option \<Rightarrow> ustring option" where
  "filter_pii U pii_filter text =
     (case text of
        None \<Rightarrow> None
      | Some t \<Rightarrow>
          if pii_filter = [] then Some t
          else if pii_filter = ascii ''regex'' then Some (filter_regex U t)
          else Some t)"

text \<open>
  \<^verbatim>\<open>pattern.search(s) is not None\<close>: the pattern matches at some position of the string.
\<close>

fun match_from :: "unicode \<Rightarrow> regex \<Rightarrow> uchar option \<Rightarrow> ustring \<Rightarrow> bool" where
  "match_from U r p [] = (ends U r (p, []) \<noteq> [])"
| "match_from U r p (c # cs) = (ends U r (p, c # cs) \<noteq> [] \<or> match_from U r (Some c) cs)"

definition re_search :: "unicode \<Rightarrow> regex \<Rightarrow> ustring \<Rightarrow> bool" where
  "re_search U r s = match_from U r None s"


subsection \<open>What a redaction rule can do to an SSN match\<close>

text \<open>
  Two facts that the proofs take from the character database, which hold of every
  version of it: a decimal digit is not white space, and a character that matches an
  ASCII letter under \<^verbatim>\<open>re.IGNORECASE\<close> is a word character.
\<close>

definition unicode_ok :: "unicode \<Rightarrow> bool" where
  "unicode_ok U \<longleftrightarrow>
     (\<forall>c. isdecimal U c \<longrightarrow> \<not> isspace c) \<and>
     (\<forall>p c. p < 128 \<and> isalpha U p \<and> ignorecase U p c \<longrightarrow> is_word U c)"

text \<open>
  The character before the position reached after the characters \<open>a\<close>.
\<close>

definition ctx :: "uchar option \<Rightarrow> ustring \<Rightarrow> uchar option" where
  "ctx p a = (if a = [] then p else Some (last a))"

text \<open>
  A pattern whose every match starts at a word character and consumes at least one
  character.
\<close>

definition word_start :: "unicode \<Rightarrow> regex \<Rightarrow> bool" where
  "word_start U r \<longleftrightarrow>
     (\<forall>st st'. st' \<in> set (ends U r st) \<longrightarrow>
        word_after U (snd st) \<and> length (snd st') < length (snd st))"

text \<open>
  The first match of a pattern never ends between a word character and a digit.
\<close>

definition digit_start :: "unicode \<Rightarrow> ustring \<Rightarrow> bool" where
  "digit_start U s = (case s of [] \<Rightarrow> False | c # cs \<Rightarrow> isdecimal U c)"

definition first_ok :: "unicode \<Rightarrow> regex \<Rightarrow> bool" where
  "first_ok U r \<longleftrightarrow>
     (\<forall>st. ends U r st \<noteq> [] \<longrightarrow>
        (digit_start U (snd (hd (ends U r st))) \<longrightarrow> \<not> word_before U (fst (hd (ends U r st)))))"

text \<open>
  What the proofs use of a pattern of \<open>PII_PATTERNS\<close>: a match starts after a non-word
  character (or at the start of the text), is not empty, and the first match found does
  not end between a word character and a digit.
\<close>

definition redaction_rule :: "unicode \<Rightarrow> regex \<Rightarrow> bool" where
  "redaction_rule U r \<longleftrightarrow>
     (\<forall>p s. ends U r (p, s) \<noteq> [] \<longrightarrow> \<not> word_before U p) \<and>
     (\<forall>st st'. st' \<in> set (ends U r st) \<longrightarrow> length (snd st') < length (snd st)) \<and>
     first_ok U r"

text \<open>
  The SSN shape: three digits, a hyphen, two digits, a hyphen, four digits.
\<close>

definition ssn_text :: "unicode \<Rightarrow> ustring \<Rightarrow> bool" where
  "ssn_text U w =
     (case w of
        [d1, d2, d3, h1, d4, d5, h2, d6, d7, d8, d9] \<Rightarrow>
          isdecimal U d1 \<and> isdecimal U d2 \<and> isdecimal U d3 \<and> h1 = 45 \<and> isdecimal U d4 \<and> isdecimal U d5 \<and>
          h2 = 45 \<and> isdecimal U d6 \<and> isdecimal U d7 \<and> isdecimal U d8 \<and> isdecimal U d9
      | _ \<Rightarrow> False)"

text \<open>
  What the proofs use of a replacement token: it is not empty, has no digit, does not
  start with a hyphen, and ends with a non-word character.
\<close>

definition token_ok :: "unicode \<Rightarrow> ustring \<Rightarrow> bool" where
  "token_ok U tok \<longleftrightarrow>
     tok \<noteq> [] \<and> (\<forall>c \<in> set tok. \<not> isdecimal U c) \<and> hd tok \<noteq> 45 \<and> \<not> is_word U (last tok)"

text \<open>
  Wherever the SSN pattern matches in the text, the pattern \<open>r\<close> matches too.
\<close>

fun covers :: "unicode \<Rightarrow> regex \<Rightarrow> uchar option \<Rightarrow> ustring \<Rightarrow> bool" where
  "covers U r p [] = True"
| "covers U r p (c # cs) =
     ((ends U (ssn_pattern U) (p, c # cs) \<noteq> [] \<longrightarrow> ends U r (p, c # cs) \<noteq> []) \<and> covers U r (Some c) cs)"

text \<open>
  A text with an SSN after a PIN label.
\<close>

definition pin_ssn_text :: ustring where
  "pin_ssn_text = ascii ''pin 123-45-6789''"


text \<open>
  An SSN after a letter outside ASCII: U+00E9 followed by 123-45-6789.
\<close>

definition accent_ssn_text :: ustring where
  "accent_ssn_text = 233 # ascii ''123-45-6789''"

text \<open>
  An SSN written with the decimal digits U+0661 to U+0669.
\<close>

definition arabic_ssn_text :: ustring where
  "arabic_ssn_text = [1633, 1634, 1635, 45, 1636, 1637, 45, 1638, 1639, 1640, 1641]"
section \<open>Fast search over the text output (services/imsg.py)\<close>

text \<open>
  What the functions below take from outside the program: the settings, the external
  process (the outcome of running a command line), and the \<^verbatim>\<open>datetime\<close> library.  A
  \<^verbatim>\<open>datetime\<close> is a value of the type \<open>'t\<close>; \<open>fromisoformat\<close> gives \<open>None\<close> where Python
  raises \<^verbatim>\<open>ValueError\<close>; \<open>format_datetime_for_imsg\<close> is
  \<^verbatim>\<open>dt.replace(microsecond=0).strftime("%Y-%m-%dT%H:%M:%SZ")\<close>; \<open>ucd\<close> is the
  Unicode character database of the interpreter.
\<close>

record 't world =
  ucd :: unicode
  imsg_path :: ustring
  pii_filter_setting :: ustring
  run :: "ustring list \<Rightarrow> proc_outcome"
  fromisoformat :: "ustring \<Rightarrow> 't option"
  datetime_now :: 't
  format_datetime_for_imsg :: "'t \<Rightarrow> ustring"

text \<open>
  \<^verbatim>\<open>Message\<close>.  The attachments and the reactions, which no function below reads, are
  left out.
\<close>

record 't message =
  m_id :: "int option"
  m_chat_id :: int
  m_guid :: ustring
  m_reply_to_guid :: "ustring option"
  m_sender :: "ustring option"
  m_is_from_me :: bool
  m_text :: "ustring option"
  m_created_at :: 't

text \<open>
  \<^verbatim>\<open>str.splitlines\<close>: a line ends at \<^verbatim>\<open>\n\<close>, \<^verbatim>\<open>\r\<close>, \<^verbatim>\<open>\r\n\<close>, \<^verbatim>\<open>\v\<close>, \<^verbatim>\<open>\f\<close>,
  U+001C, U+001D, U+001E, U+0085, U+2028 or U+2029; the breaks are dropped and no empty
  line is added after a final break.
\<close>

definition is_linebreak :: "uchar \<Rightarrow> bool" where
  "is_linebreak c = ((10 \<le> c \<and> c \<le> 13) \<or> (28 \<le> c \<and> c \<le> 30) \<or> c = 133 \<or> c = 8232 \<or> c = 8233)"

fun splitlines_aux :: "ustring \<Rightarrow> ustring \<Rightarrow> ustring list" where
  "splitlines_aux cur [] = (if cur = [] then [] else [rev cur])"
| "splitlines_aux cur [c] = (if is_linebreak c then [rev cur] else [rev (c # cur)])"
| "splitlines_aux cur (c # d # cs) =
     (if c = 13 \<and> d = 10 then rev cur # splitlines_aux [] cs
      else if is_linebreak c then rev cur # splitlines_aux [] (d # cs)
      else splitlines_aux (c # cur) (d # cs))"

definition splitlines :: "ustring \<Rightarrow> ustring list" where
  "splitlines s = splitlines_aux [] s"

text \<open>\<^verbatim>\<open>s.replace(old, new)\<close> for a one-character \<open>old\<close>.\<close>

definition replace_char :: "uchar \<Rightarrow> ustring \<Rightarrow> ustring \<Rightarrow> ustring" where
  "replace_char old new s = concat (map (\<lambda>c. if c = old then new else [c]) s)"

text \<open>
  \<^verbatim>\<open>_TEXT_LINE_PATTERN\<close>,
  \<^verbatim>\<open>^(\d{4}-\d{2}-\d{2}T[\d:.]+Z)\s+\[(sent|recv)\]\s+([^:]+):\s*(.*)$\<close>, cut at the borders
  of its four groups.  \<open>group U r st\<close> pairs each end of a match of \<open>r\<close> with the text it
  consumed; \<open>text_line_groups\<close> is \<^verbatim>\<open>pattern.match(line)\<close> followed by
  \<^verbatim>\<open>match.groups()\<close>: the groups of the first match in the order of the matcher.
\<close>

definition group :: "unicode \<Rightarrow> regex \<Rightarrow> mstate \<Rightarrow> (ustring \<times> mstate) list" where
  "group U r st =
     map (\<lambda>st'. (take (length (snd st) - length (snd st')) (snd st), st')) (ends U r st)"

definition date_group :: "unicode \<Rightarrow> regex" where
  "date_group U =
     seqs [times 4 (digit U), chr 45, times 2 (digit U), chr 45, times 2 (digit U), chr 84,
           plus (Cls (\<lambda>c. isdecimal U c \<or> c = 58 \<or> c = 46)), chr 90]"

definition direction_group :: regex where
  "direction_group = Alt (lit (ascii ''sent'')) (lit (ascii ''recv''))"

definition sender_group :: regex where
  "sender_group = plus (Cls (\<lambda>c. c \<noteq> 58))"

definition text_group :: regex where
  "text_group = Star (Cls (\<lambda>c. c \<noteq> 10))"

definition text_line_groups ::
  "unicode \<Rightarrow> ustring \<Rightarrow> (ustring \<times> ustring \<times> ustring \<times> ustring) option" where
  "text_line_groups U line =
     (case [(date_str, direction, sender, txt).
              st0 \<leftarrow> ends U Bol (None, line),
              (date_str, st1) \<leftarrow> group U (date_group U) st0,
              st2 \<leftarrow> ends U (seqs [plus (Cls isspace), chr 91]) st1,
              (direction, st3) \<leftarrow> group U direction_group st2,
              st4 \<leftarrow> ends U (seqs [chr 93, plus (Cls isspace)]) st3,
              (sender, st5) \<leftarrow> group U sender_group st4,
              st6 \<leftarrow> ends U (seqs [chr 58, Star (Cls isspace)]) st5,
              (txt, st7) \<leftarrow> group U text_group st6,
              st8 \<leftarrow> ends U Eol st7]
      of [] \<Rightarrow> None | g # _ \<Rightarrow> Some g)"

text \<open>\<^verbatim>\<open>_parse_text_message\<close>; \<open>None\<close> when the line does not match the pattern.\<close>

definition parse_text_message ::
  "'t world \<Rightarrow> ustring \<Rightarrow> int \<Rightarrow> nat \<Rightarrow> 't message option" where
  "parse_text_message W line chat_id line_idx =
     (case text_line_groups (ucd W) line of
        None \<Rightarrow> None
      | Some (date_str, direction, sender, txt) \<Rightarrow>
          let is_from_me = (direction = ascii ''sent'');
              created_at =
                (case fromisoformat W (replace_char 90 (ascii ''+00:00'') date_str) of
                   Some dt \<Rightarrow> dt | None \<Rightarrow> datetime_now W);
              cleaned_text = filter_pii (ucd W) (pii_filter_setting W) (Some (clean_text txt))
          in Some \<lparr>m_id = Some (int line_idx), m_chat_id = chat_id,
                   m_guid = ascii ''search-'' @ str_int chat_id @ ascii ''-''
                              @ str_int (int line_idx),
                   m_reply_to_guid = None, m_sender = Some (strip sender),
                   m_is_from_me = is_from_me, m_text = cleaned_text,
                   m_created_at = created_at\<rparr>)"

text \<open>
  The loop of \<^verbatim>\<open>search_messages_fast\<close> over the lines that are left, with the line
  counter and the matches so far.  \<^verbatim>\<open>break\<close> returns the matches.
\<close>

fun search_loop ::
  "'t world \<Rightarrow> ustring \<Rightarrow> int \<Rightarrow> int \<Rightarrow> ustring list \<Rightarrow> nat \<Rightarrow> 't message list
     \<Rightarrow> 't message list" where
  "search_loop W query_lower thread_id result_limit [] line_idx matches = matches"
| "search_loop W query_lower thread_id result_limit (line0 # rest) line_idx matches =
     (let line = strip line0 in
      if line = [] \<or> take 1 line = ascii ''(''
        then search_loop W query_lower thread_id result_limit rest line_idx matches
      else if \<not> contains (lower (ucd W) line) query_lower
        then search_loop W query_lower thread_id result_limit rest (line_idx + 1) matches
      else
        (case parse_text_message W line thread_id line_idx of
           Some msg \<Rightarrow>
             if truthy (m_text msg) \<and> contains (lower (ucd W) (the (m_text msg))) query_lower
             then (if result_limit \<le> int (length (matches @ [msg])) then matches @ [msg]
                   else search_loop W query_lower thread_id result_limit rest (line_idx + 1)
                          (matches @ [msg]))
             else search_loop W query_lower thread_id result_limit rest (line_idx + 1) matches
         | None \<Rightarrow>
             search_loop W query_lower thread_id result_limit rest (line_idx + 1) matches))"

definition history_args ::
  "'t world \<Rightarrow> int \<Rightarrow> int \<Rightarrow> 't option \<Rightarrow> 't option \<Rightarrow> ustring list" where
  "history_args W thread_id scan_limit start end =
     [ascii ''history'', ascii ''--chat-id'', str_int thread_id, ascii ''--limit'',
      str_int scan_limit]
     @ (case start of Some dt \<Rightarrow> [ascii ''--start'', format_datetime_for_imsg W dt] | None \<Rightarrow> [])
     @ (case end of Some dt \<Rightarrow> [ascii ''--end'', format_datetime_for_imsg W dt] | None \<Rightarrow> [])"

definition search_messages_fast ::
  "'t world \<Rightarrow> ustring \<Rightarrow> int \<Rightarrow> int \<Rightarrow> int \<Rightarrow> 't option \<Rightarrow> 't option
     \<Rightarrow> imsg_error + 't message list" where
  "search_messages_fast W query thread_id scan_limit result_limit start end =
     (let cmd = imsg_path W # history_args W thread_id scan_limit start end in
      case run_imsg_raw cmd (ascii ''30.0'') (run W cmd) of
        Inl e \<Rightarrow> Inl e
      | Inr output \<Rightarrow>
          Inr (search_loop W (lower (ucd W) query) thread_id result_limit (splitlines output) 0 []))"

subsection \<open>What the scan returns\<close>







section \<open>Threads, history and link extraction (services/imsg.py)\<close>

text \<open>
  An exception that leaves a function: an \<^verbatim>\<open>ImsgError\<close>, which
  \<^verbatim>\<open>find_thread_by_recipient\<close> catches around each probe, or any other exception, which
  nothing in these functions catches.
\<close>

datatype failure = Imsg_error imsg_error | Other_exception

text \<open>\<^verbatim>\<open>Participant\<close>, \<^verbatim>\<open>Thread\<close> and \<^verbatim>\<open>ExtractedLink\<close>.\<close>

record participant =
  handle :: ustring
  display_name :: "ustring option"

record 't thread =
  th_id :: int
  th_name :: "ustring option"
  th_identifier :: "ustring option"
  th_service :: "ustring option"
  th_last_message_at :: "'t option"
  th_participants :: "participant list"

record 't extracted_link =
  l_url :: ustring
  l_message_id :: "int option"
  l_sender :: "ustring option"
  l_sent_at :: 't
  l_context :: "ustring option"

text \<open>
  What the structured calls take from outside the program besides a world \<open>env\<close>:
  \<open>json_loads\<close> is \<^verbatim>\<open>json.loads\<close> on a line, \<open>None\<close> for a \<^verbatim>\<open>JSONDecodeError\<close>;
  \<open>parse_thread\<close> and \<open>parse_message\<close> are what \<^verbatim>\<open>_parse_thread\<close> and
  \<^verbatim>\<open>_parse_message\<close> make of a decoded element, which is decided by \<^verbatim>\<open>dict.get\<close>,
  \<^verbatim>\<open>int\<close> and the validation of the pydantic models: a value, or \<open>None\<close> when one of
  them raises (neither function calls the tool, so what is raised is not an
  \<^verbatim>\<open>ImsgError\<close>); \<open>timeout_repr\<close> is the text that Python prints for the
  floating-point timeout \<^verbatim>\<open>max(30.0, (limit / 100) * 10 + 30)\<close> of \<^verbatim>\<open>get_messages\<close>.
\<close>

record ('t, 'r) tool =
  env :: "'t world"
  json_loads :: "ustring \<Rightarrow> 'r loaded option"
  parse_thread :: "'r \<Rightarrow> 't thread option"
  parse_message :: "'r \<Rightarrow> 't message option"
  timeout_repr :: "int \<Rightarrow> ustring"

text \<open>
  A list comprehension \<^verbatim>\<open>[f(r) for r in results]\<close> in which \<open>f\<close> may raise.
\<close>

fun parse_all :: "('r \<Rightarrow> 'a option) \<Rightarrow> 'r list \<Rightarrow> failure + 'a list" where
  "parse_all f [] = Inr []"
| "parse_all f (r # rs) =
     (case f r of
        None \<Rightarrow> Inl Other_exception
      | Some x \<Rightarrow> (case parse_all f rs of Inl e \<Rightarrow> Inl e | Inr xs \<Rightarrow> Inr (x # xs)))"

text \<open>\<^verbatim>\<open>list_threads\<close>.\<close>

definition list_threads :: "('t, 'r) tool \<Rightarrow> int \<Rightarrow> failure + 't thread list" where
  "list_threads T limit =
     (let cmd = imsg_path (env T) # [ascii ''chats'', ascii ''--limit'', str_int limit,
                                     ascii ''--json''] in
      case run_imsg (json_loads T) cmd (ascii ''30.0'') (run (env T) cmd) of
        Inl e \<Rightarrow> Inl (Imsg_error e)
      | Inr results \<Rightarrow> parse_all (parse_thread T) results)"

text \<open>
  \<^verbatim>\<open>get_messages\<close>; \<^verbatim>\<open>if participants:\<close> holds for a list that is given and not
  empty.
\<close>

definition get_messages_args ::
  "('t, 'r) tool \<Rightarrow> int \<Rightarrow> int \<Rightarrow> 't option \<Rightarrow> 't option \<Rightarrow> ustring list option \<Rightarrow> bool
     \<Rightarrow> ustring list" where
  "get_messages_args T thread_id limit start end participants include_attachments =
     [ascii ''history'', ascii ''--chat-id'', str_int thread_id, ascii ''--limit'',
      str_int limit, ascii ''--json'']
     @ (case start of
          Some dt \<Rightarrow> [ascii ''--start'', format_datetime_for_imsg (env T) dt] | None \<Rightarrow> [])
     @ (case end of
          Some dt \<Rightarrow> [ascii ''--end'', format_datetime_for_imsg (env T) dt] | None \<Rightarrow> [])
     @ (case participants of
          Some ps \<Rightarrow> if ps \<noteq> [] then [ascii ''--participants'', join_with [44] ps] else []
        | None \<Rightarrow> [])
     @ (if include_attachments then [ascii ''--attachments''] else [])"

definition get_messages ::
  "('t, 'r) tool \<Rightarrow> int \<Rightarrow> int \<Rightarrow> 't option \<Rightarrow> 't option \<Rightarrow> ustring list option \<Rightarrow> bool
     \<Rightarrow> failure + 't message list" where
  "get_messages T thread_id limit start end participants include_attachments =
     (let cmd = imsg_path (env T)
                  # get_messages_args T thread_id limit start end participants include_attachments in
      case run_imsg (json_loads T) cmd (timeout_repr T limit) (run (env T) cmd) of
        Inl e \<Rightarrow> Inl (Imsg_error e)
      | Inr results \<Rightarrow> parse_all (parse_message T) results)"

text \<open>
  The loop of \<^verbatim>\<open>find_thread_by_recipient\<close> over the threads that are left: a probe that
  raises an \<^verbatim>\<open>ImsgError\<close> is skipped, any other exception leaves the function.
\<close>

fun probe_threads ::
  "('t, 'r) tool \<Rightarrow> ustring \<Rightarrow> 't thread list \<Rightarrow> failure + int option" where
  "probe_threads T recipient [] = Inr None"
| "probe_threads T recipient (thread # rest) =
     (case get_messages T (th_id thread) 1 None None (Some [recipient]) False of
        Inr messages \<Rightarrow>
          if messages \<noteq> [] then Inr (Some (th_id thread)) else probe_threads T recipient rest
      | Inl (Imsg_error e) \<Rightarrow> probe_threads T recipient rest
      | Inl Other_exception \<Rightarrow> Inl Other_exception)"

definition find_thread_by_recipient ::
  "('t, 'r) tool \<Rightarrow> ustring \<Rightarrow> int \<Rightarrow> failure + int option" where
  "find_thread_by_recipient T recipient max_threads =
     (case list_threads T max_threads of
        Inl e \<Rightarrow> Inl e
      | Inr threads \<Rightarrow> probe_threads T recipient threads)"

text \<open>
  The first lines of \<^verbatim>\<open>search_messages\<close> and of \<^verbatim>\<open>extract_links\<close>: the thread id that
  is given or, when none is given and the recipient is a non-empty string, the one that
  \<^verbatim>\<open>find_thread_by_recipient\<close> returns.
\<close>

definition target_thread ::
  "('t, 'r) tool \<Rightarrow> int option \<Rightarrow> ustring option \<Rightarrow> failure + int option" where
  "target_thread T thread_id recipient =
     (if thread_id = None \<and> truthy recipient
      then find_thread_by_recipient T (the recipient) 50
      else Inr thread_id)"

text \<open>\<^verbatim>\<open>search_messages\<close>.\<close>

definition search_messages ::
  "('t, 'r) tool \<Rightarrow> ustring \<Rightarrow> int option \<Rightarrow> ustring option \<Rightarrow> int \<Rightarrow> int \<Rightarrow> 't option
     \<Rightarrow> 't option \<Rightarrow> failure + 't message list" where
  "search_messages T query thread_id recipient scan_limit result_limit start end =
     (case target_thread T thread_id recipient of
        Inl e \<Rightarrow> Inl e
      | Inr None \<Rightarrow> Inr []
      | Inr (Some target_thread_id) \<Rightarrow>
          (case search_messages_fast (env T) query target_thread_id scan_limit result_limit
                  start end of
             Inl e \<Rightarrow> Inl (Imsg_error e)
           | Inr matches \<Rightarrow> Inr matches))"

text \<open>
  \<^verbatim>\<open>pattern.findall(s)\<close> for a pattern without capturing groups: the texts of the matches
  found from the left, each search starting where the match before it ended.
\<close>

function findall_from :: "unicode \<Rightarrow> regex \<Rightarrow> uchar option \<Rightarrow> ustring \<Rightarrow> ustring list" where
  "findall_from U r p [] = (if ends U r (p, []) \<noteq> [] then [[]] else [])"
| "findall_from U r p (c # cs) =
     (case ends U r (p, c # cs) of
        (p', s') # _ \<Rightarrow>
          if length s' < length (c # cs)
          then take (length (c # cs) - length s') (c # cs) # findall_from U r p' s'
          else [] # findall_from U r (Some c) cs
      | [] \<Rightarrow> findall_from U r (Some c) cs)"
  by pat_completeness auto
termination
  by (relation "measure (\<lambda>(U, r, p, s). length s)") auto

definition re_findall :: "unicode \<Rightarrow> regex \<Rightarrow> ustring \<Rightarrow> ustring list" where
  "re_findall U r s = findall_from U r None s"

text \<open>
  \<^verbatim>\<open>_URL_PATTERN\<close>, \<^verbatim>\<open>https?://(?:[\w-]+\.)+[\w-]+(?:/[^\s<>\"'\)\]]*)?\<close> under
  \<^verbatim>\<open>re.IGNORECASE\<close>, and \<^verbatim>\<open>_extract_urls\<close>.
\<close>

definition url_pattern :: "unicode \<Rightarrow> regex" where
  "url_pattern U =
     seqs [ilit U (ascii ''http''), Opt (ilit U (ascii ''s'')), lit (ascii ''://''),
           plus (Seq (plus (Cls (\<lambda>c. is_word U c \<or> c = 45))) (chr 46)),
           plus (Cls (\<lambda>c. is_word U c \<or> c = 45)),
           Opt (Seq (chr 47)
                  (Star (Cls (\<lambda>c. \<not> (isspace c \<or> c = 60 \<or> c = 62 \<or> c = 34 \<or> c = 39
                                      \<or> c = 41 \<or> c = 93)))))]"

definition extract_urls :: "unicode \<Rightarrow> ustring \<Rightarrow> ustring list" where
  "extract_urls U text =
     (if text = [] then [] else re_findall U (url_pattern U) (clean_text text))"

text \<open>
  The two loops of \<^verbatim>\<open>extract_links\<close>: over the URLs of one message, and over the
  messages from the newest to the oldest, with the links so far.
\<close>

fun url_loop ::
  "int \<Rightarrow> 't message \<Rightarrow> ustring list \<Rightarrow> 't extracted_link list \<Rightarrow> 't extracted_link list" where
  "url_loop limit msg [] links = links"
| "url_loop limit msg (url # urls) links =
     (if limit \<le> int (length links) then links
      else url_loop limit msg urls
             (links @ [\<lparr>l_url = url, l_message_id = m_id msg,
                         l_sender = (if \<not> m_is_from_me msg then m_sender msg
                                     else Some (ascii ''me'')),
                         l_sent_at = m_created_at msg,
                         l_context = Some (get_link_context (the (m_text msg)) url 50)\<rparr>]))"

fun link_loop ::
  "unicode \<Rightarrow> int \<Rightarrow> bool option \<Rightarrow> 't message list \<Rightarrow> 't extracted_link list
     \<Rightarrow> 't extracted_link list" where
  "link_loop U limit from_me [] links = links"
| "link_loop U limit from_me (msg # rest) links =
     (if limit \<le> int (length links) then links
      else if from_me = Some True \<and> \<not> m_is_from_me msg then link_loop U limit from_me rest links
      else if from_me = Some False \<and> m_is_from_me msg then link_loop U limit from_me rest links
      else if \<not> truthy (m_text msg) then link_loop U limit from_me rest links
      else link_loop U limit from_me rest
             (url_loop limit msg (extract_urls U (the (m_text msg))) links))"

text \<open>\<^verbatim>\<open>extract_links\<close>.\<close>

definition extract_links ::
  "('t, 'r) tool \<Rightarrow> ustring option \<Rightarrow> int option \<Rightarrow> int \<Rightarrow> int \<Rightarrow> bool option \<Rightarrow> 't option
     \<Rightarrow> 't option \<Rightarrow> failure + 't extracted_link list" where
  "extract_links T recipient thread_id limit message_limit from_me start end =
     (case target_thread T thread_id recipient of
        Inl e \<Rightarrow> Inl e
      | Inr None \<Rightarrow> Inr []
      | Inr (Some target_thread_id) \<Rightarrow>
          (case get_messages T target_thread_id message_limit start end None False of
             Inl e \<Rightarrow> Inl e
           | Inr messages \<Rightarrow>
               Inr (link_loop (ucd (env T)) limit from_me (rev messages) [])))"

subsection \<open>A recipient that resolves to no thread\<close>

text \<open>
  The recipient resolves to no thread: the tool lists the threads, and the probe of each
  listed thread for the recipient gives no message or fails with an \<^verbatim>\<open>ImsgError\<close>.
\<close>

definition probe_empty :: "('t, 'r) tool \<Rightarrow> ustring \<Rightarrow> 't thread \<Rightarrow> bool" where
  "probe_empty T recipient thread =
     (case get_messages T (th_id thread) 1 None None (Some [recipient]) False of
        Inr messages \<Rightarrow> messages = []
      | Inl (Imsg_error e) \<Rightarrow> True
      | Inl Other_exception \<Rightarrow> False)"

definition resolves_to_none :: "('t, 'r) tool \<Rightarrow> ustring \<Rightarrow> bool" where
  "resolves_to_none T recipient =
     (case list_threads T 50 of
        Inr threads \<Rightarrow> list_all (probe_empty T recipient) threads
      | Inl e \<Rightarrow> False)"

text \<open>
  A tool whose \<^verbatim>\<open>chats\<close> call prints two lines, for the threads 1 and 2, and whose
  \<^verbatim>\<open>history\<close> call exits with code 1 for thread 1 and prints nothing for any other
  thread.  A decoded element is the text of its line.
\<close>

definition two_threads :: "(nat, ustring) tool" where
  "two_threads =
     \<lparr>env = \<lparr>ucd = ucd_excerpt, imsg_path = ascii ''imsg'', pii_filter_setting = ascii ''regex'',
             run = (\<lambda>cmd. if take 1 (drop 1 cmd) = [ascii ''chats''] then Exited 0 (ascii ''1'' @ [10] @ ascii ''2'') []
                          else if take 1 (drop 3 cmd) = [ascii ''1''] then Exited 1 [] (ascii ''no such chat'')
                          else Exited 0 [] []),
             fromisoformat = (\<lambda>s. None), datetime_now = 0,
             format_datetime_for_imsg = (\<lambda>dt. [])\<rparr>,
      json_loads = (\<lambda>line. Some (Dict line)),
      parse_thread = (\<lambda>r. Some \<lparr>th_id = (if r = ascii ''1'' then 1 else 2), th_name = None,
                                th_identifier = None, th_service = None,
                                th_last_message_at = None, th_participants = []\<rparr>),
      parse_message = (\<lambda>r. None),
      timeout_repr = (\<lambda>limit. ascii ''30.1'')\<rparr>"
section \<open>Contact cache: index maintenance, resolution and merging\<close>

lemma map_of_fold_update:
  "map_of (fold (\<lambda>x idx. AList.update (f x) v idx) xs idx) k =
     (if k \<in> f ` set xs then Some v else map_of idx k)"
  by (induction xs arbitrary: idx) (auto simp: update_conv')

lemma map_of_fold_delete:
  "map_of (fold (\<lambda>x idx. AList.delete (f x) idx) xs idx) k =
     (if k \<in> f ` set xs then None else map_of idx k)"
  by (induction xs arbitrary: idx) (auto simp: delete_conv')

lemma first_indexed_None:
  "first_indexed idx ks = None \<longleftrightarrow> (\<forall>k \<in> set ks. map_of idx k = None)"
  by (induction ks) (auto split: option.splits)

lemma first_indexed_Some:
  "first_indexed idx ks = Some i \<Longrightarrow> \<exists>k \<in> set ks. map_of idx k = Some i"
  by (induction ks) (auto split: option.splits)

lemma index_contact_contacts [simp]: "contacts (index_contact U S c) = contacts S"
  by (simp add: index_contact_def)

lemma index_contact_phone [simp]:
  "map_of (phone_index (index_contact U S c)) k =
     (if k \<in> normalize_phone U ` set (phones c) then Some (cid c) else map_of (phone_index S) k)"
  by (simp add: index_contact_def map_of_fold_update)

lemma index_contact_email [simp]:
  "map_of (email_index (index_contact U S c)) k =
     (if k \<in> lower U ` set (emails c) then Some (cid c) else map_of (email_index S) k)"
  by (simp add: index_contact_def map_of_fold_update)

lemma unindex_contact_contacts [simp]: "contacts (unindex_contact U S c) = contacts S"
  by (simp add: unindex_contact_def)

lemma unindex_contact_phone [simp]:
  "map_of (phone_index (unindex_contact U S c)) k =
     (if k \<in> normalize_phone U ` set (phones c) then None else map_of (phone_index S) k)"
  by (simp add: unindex_contact_def map_of_fold_delete)

lemma unindex_contact_email [simp]:
  "map_of (email_index (unindex_contact U S c)) k =
     (if k \<in> lower U ` set (emails c) then None else map_of (email_index S) k)"
  by (simp add: unindex_contact_def map_of_fold_delete)

lemma find_existing_inv:
  assumes "cache_inv U S" "find_existing U S d = Some e"
  shows "e \<noteq> [] \<and> (\<exists>old. map_of (contacts S) e = Some old \<and> cid old = e)"
proof -
  from assms(2) have "(\<exists>k. map_of (phone_index S) k = Some e) \<or> (\<exists>k. map_of (email_index S) k = Some e)"
    by (auto simp: find_existing_def Let_def split: if_splits option.splits dest: first_indexed_Some)
  with assms(1) show ?thesis
    unfolding cache_inv_def by blast
qed

lemma upsert_merge:
  assumes "cache_inv U S" "find_existing U S d = Some e"
  shows "\<exists>old. map_of (contacts S) e = Some old \<and>
           upsert U S d new_id now now2 =
             (merged old d now,
              index_contact U ((unindex_contact U S old)\<lparr>contacts := AList.update e (merged old d now) (contacts S)\<rparr>)
                (merged old d now))"
proof -
  from find_existing_inv[OF assms] obtain old where
    e: "e \<noteq> []" and old: "map_of (contacts S) e = Some old" by blast
  then show ?thesis using assms(2)
    by (simp add: upsert_def Let_def merged_def)
qed

lemma upsert_create:
  assumes "find_existing U S d = None"
  shows "upsert U S d new_id now now2 =
           (created d new_id now now2,
            index_contact U (S\<lparr>contacts := AList.update new_id (created d new_id now now2) (contacts S)\<rparr>)
              (created d new_id now now2))"
  using assms by (simp add: upsert_def Let_def created_def)

lemma merged_simps [simp]:
  "cid (merged old d now) = cid old"
  "name (merged old d now) = name_or (u_name d) (name old)"
  "set (phones (merged old d now)) = set (phones old) \<union> set (u_phones d)"
  "set (emails (merged old d now)) = set (emails old) \<union> set (u_emails d)"
  "set (aliases (merged old d now)) = set (aliases old) \<union> set (u_aliases d)"
  "updated_at (merged old d now) = now"
  "created_at (merged old d now) = created_at old"
  by (simp_all add: merged_def list_set_def)

lemma created_simps [simp]:
  "cid (created d new_id now now2) = new_id"
  "name (created d new_id now now2) = u_name d"
  "phones (created d new_id now now2) = u_phones d"
  "emails (created d new_id now now2) = u_emails d"
  "aliases (created d new_id now now2) = u_aliases d"
  by (simp_all add: created_def)

lemma cache_inv_merge:
  assumes inv: "cache_inv U S" and old: "map_of (contacts S) e = Some old"
  shows "cache_inv U (index_contact U ((unindex_contact U S old)\<lparr>contacts := AList.update e (merged old d now) (contacts S)\<rparr>)
                (merged old d now))"
proof -
  from inv old have e: "cid old = e" "e \<noteq> []" unfolding cache_inv_def by blast+
  show ?thesis
    unfolding cache_inv_def
  proof (intro conjI allI impI)
    fix i c assume "map_of (contacts (index_contact U (unindex_contact U S old\<lparr>contacts := AList.update e (merged old d now) (contacts S)\<rparr>) (merged old d now))) i = Some c"
    then have "(i = e \<and> c = merged old d now) \<or> (i \<noteq> e \<and> map_of (contacts S) i = Some c)"
      by (auto simp: update_conv' split: if_splits)
    then show "cid c = i" "i \<noteq> []" using inv e unfolding cache_inv_def by auto
  next
    fix k i assume h: "map_of (phone_index (index_contact U (unindex_contact U S old\<lparr>contacts := AList.update e (merged old d now) (contacts S)\<rparr>) (merged old d now))) k = Some i"
    show "\<exists>c. map_of (contacts (index_contact U (unindex_contact U S old\<lparr>contacts := AList.update e (merged old d now) (contacts S)\<rparr>) (merged old d now))) i = Some c \<and> k \<in> normalize_phone U ` set (phones c)"
    proof (cases "k \<in> normalize_phone U ` set (phones (merged old d now))")
      case True
      with h have "i = e" using e by simp
      with True show ?thesis by (simp add: update_conv')
    next
      case False
      with h have k: "k \<notin> normalize_phone U ` set (phones old)" "map_of (phone_index S) k = Some i"
        by (auto simp: unindex_contact_def map_of_fold_delete split: if_splits)
      with inv obtain c where c: "map_of (contacts S) i = Some c" "k \<in> normalize_phone U ` set (phones c)"
        unfolding cache_inv_def by blast
      with k old have "i \<noteq> e" by auto
      with c show ?thesis by (simp add: update_conv')
    qed
  next
    fix k i assume h: "map_of (email_index (index_contact U (unindex_contact U S old\<lparr>contacts := AList.update e (merged old d now) (contacts S)\<rparr>) (merged old d now))) k = Some i"
    show "\<exists>c. map_of (contacts (index_contact U (unindex_contact U S old\<lparr>contacts := AList.update e (merged old d now) (contacts S)\<rparr>) (merged old d now))) i = Some c \<and> k \<in> lower U ` set (emails c)"
    proof (cases "k \<in> lower U ` set (emails (merged old d now))")
      case True
      with h have "i = e" using e by simp
      with True show ?thesis by (simp add: update_conv')
    next
      case False
      with h have k: "k \<notin> lower U ` set (emails old)" "map_of (email_index S) k = Some i"
        by (auto simp: unindex_contact_def map_of_fold_delete split: if_splits)
      with inv obtain c where c: "map_of (contacts S) i = Some c" "k \<in> lower U ` set (emails c)"
        unfolding cache_inv_def by blast
      with k old have "i \<noteq> e" by auto
      with c show ?thesis by (simp add: update_conv')
    qed
  qed
qed

lemma cache_inv_create:
  assumes inv: "cache_inv U S" and fresh: "map_of (contacts S) new_id = None" and ne: "new_id \<noteq> []"
  shows "cache_inv U (index_contact U (S\<lparr>contacts := AList.update new_id (created d new_id now now2) (contacts S)\<rparr>)
              (created d new_id now now2))"
  unfolding cache_inv_def
proof (intro conjI allI impI)
  fix i c assume "map_of (contacts (index_contact U (S\<lparr>contacts := AList.update new_id (created d new_id now now2) (contacts S)\<rparr>) (created d new_id now now2))) i = Some c"
  then have "(i = new_id \<and> c = created d new_id now now2) \<or> (i \<noteq> new_id \<and> map_of (contacts S) i = Some c)"
    by (auto simp: update_conv' split: if_splits)
  then show "cid c = i" "i \<noteq> []" using inv ne unfolding cache_inv_def by auto
next
  fix k i assume h: "map_of (phone_index (index_contact U (S\<lparr>contacts := AList.update new_id (created d new_id now now2) (contacts S)\<rparr>) (created d new_id now now2))) k = Some i"
  show "\<exists>c. map_of (contacts (index_contact U (S\<lparr>contacts := AList.update new_id (created d new_id now now2) (contacts S)\<rparr>) (created d new_id now now2))) i = Some c \<and> k \<in> normalize_phone U ` set (phones c)"
  proof (cases "k \<in> normalize_phone U ` set (phones (created d new_id now now2))")
    case True
    with h have "i = new_id" by simp
    with True show ?thesis by (simp add: update_conv')
  next
    case False
    with h have k: "map_of (phone_index S) k = Some i" by simp
    with inv obtain c where c: "map_of (contacts S) i = Some c" "k \<in> normalize_phone U ` set (phones c)"
      unfolding cache_inv_def by blast
    with fresh have "i \<noteq> new_id" by auto
    with c show ?thesis by (simp add: update_conv')
  qed
next
  fix k i assume h: "map_of (email_index (index_contact U (S\<lparr>contacts := AList.update new_id (created d new_id now now2) (contacts S)\<rparr>) (created d new_id now now2))) k = Some i"
  show "\<exists>c. map_of (contacts (index_contact U (S\<lparr>contacts := AList.update new_id (created d new_id now now2) (contacts S)\<rparr>) (created d new_id now now2))) i = Some c \<and> k \<in> lower U ` set (emails c)"
  proof (cases "k \<in> lower U ` set (emails (created d new_id now now2))")
    case True
    with h have "i = new_id" by simp
    with True show ?thesis by (simp add: update_conv')
  next
    case False
    with h have k: "map_of (email_index S) k = Some i" by simp
    with inv obtain c where c: "map_of (contacts S) i = Some c" "k \<in> lower U ` set (emails c)"
      unfolding cache_inv_def by blast
    with fresh have "i \<noteq> new_id" by auto
    with c show ?thesis by (simp add: update_conv')
  qed
qed

lemma cache_inv_upsert:
  assumes "cache_inv U S" "map_of (contacts S) new_id = None" "new_id \<noteq> []"
  shows "cache_inv U (snd (upsert U S d new_id now now2))"
proof (cases "find_existing U S d")
  case None
  then show ?thesis using cache_inv_create[OF assms] by (simp add: upsert_create)
next
  case (Some e)
  from upsert_merge[OF assms(1) Some, of new_id now now2] obtain old where
    "map_of (contacts S) e = Some old"
    "upsert U S d new_id now now2 =
      (merged old d now,
       index_contact U ((unindex_contact U S old)\<lparr>contacts := AList.update e (merged old d now) (contacts S)\<rparr>)
         (merged old d now))" by blast
  then show ?thesis using cache_inv_merge[OF assms(1)] by simp
qed

lemma cache_inv_delete:
  assumes inv: "cache_inv U S"
  shows "cache_inv U (snd (delete U S contact_id))"
proof (cases "map_of (contacts S) contact_id")
  case None
  then show ?thesis using inv by (simp add: delete_def)
next
  case (Some old)
  have eq: "snd (delete U S contact_id) =
      unindex_contact U (S\<lparr>contacts := AList.delete contact_id (contacts S)\<rparr>) old"
    using Some by (simp add: delete_def)
  show ?thesis unfolding eq cache_inv_def
  proof (intro conjI allI impI)
    fix i c assume "map_of (contacts (unindex_contact U (S\<lparr>contacts := AList.delete contact_id (contacts S)\<rparr>) old)) i = Some c"
    then have "map_of (contacts S) i = Some c" by (auto simp: delete_conv' split: if_splits)
    then show "cid c = i" "i \<noteq> []" using inv unfolding cache_inv_def by auto
  next
    fix k i assume "map_of (phone_index (unindex_contact U (S\<lparr>contacts := AList.delete contact_id (contacts S)\<rparr>) old)) k = Some i"
    then have k: "k \<notin> normalize_phone U ` set (phones old)" "map_of (phone_index S) k = Some i"
      by (auto split: if_splits)
    with inv obtain c where c: "map_of (contacts S) i = Some c" "k \<in> normalize_phone U ` set (phones c)"
      unfolding cache_inv_def by blast
    with k Some have "i \<noteq> contact_id" by auto
    with c show "\<exists>c. map_of (contacts (unindex_contact U (S\<lparr>contacts := AList.delete contact_id (contacts S)\<rparr>) old)) i = Some c \<and> k \<in> normalize_phone U ` set (phones c)"
      by (simp add: delete_conv')
  next
    fix k i assume "map_of (email_index (unindex_contact U (S\<lparr>contacts := AList.delete contact_id (contacts S)\<rparr>) old)) k = Some i"
    then have k: "k \<notin> lower U ` set (emails old)" "map_of (email_index S) k = Some i"
      by (auto split: if_splits)
    with inv obtain c where c: "map_of (contacts S) i = Some c" "k \<in> lower U ` set (emails c)"
      unfolding cache_inv_def by blast
    with k Some have "i \<noteq> contact_id" by auto
    with c show "\<exists>c. map_of (contacts (unindex_contact U (S\<lparr>contacts := AList.delete contact_id (contacts S)\<rparr>) old)) i = Some c \<and> k \<in> lower U ` set (emails c)"
      by (simp add: delete_conv')
  qed
qed

lemma reachable_inv: "reachable U S \<Longrightarrow> cache_inv U S"
proof (induction rule: reachable.induct)
  case reach_empty
  show ?case by (simp add: cache_inv_def empty_cache_def)
next
  case (reach_upsert S new_id d now)
  then show ?case by (simp add: cache_inv_upsert)
next
  case (reach_delete S contact_id)
  then show ?case by (simp add: cache_inv_delete)
next
  case (reach_clear S)
  show ?case by (simp add: cache_inv_def clear_def)
qed

lemmas eval_defs = upsert_def find_existing_def index_contact_def unindex_contact_def
  normalize_phone_def strip_def isspace_def isdigit_def ascii_def empty_cache_def
  list_set_def name_or_def lower_def is_ascii_def lower_cp_def Let_def

lemma cache_a_eq:
  "cache_a U = \<lparr>contacts = [([97], \<lparr>cid = [97], name = None, phones = [[49]], emails = [],
       aliases = [], updated_at = 0, created_at = 1\<rparr>)],
     phone_index = [([49], [97])], email_index = []\<rparr>"
  by (simp add: cache_a_def up_def eval_defs)

lemma cache_b_eq:
  "cache_b U = \<lparr>contacts = [([97], \<lparr>cid = [97], name = None, phones = [[49]], emails = [],
       aliases = [], updated_at = 0, created_at = 1\<rparr>),
      ([98], \<lparr>cid = [98], name = None, phones = [[50]], emails = [],
       aliases = [], updated_at = 2, created_at = 3\<rparr>)],
     phone_index = [([49], [97]), ([50], [98])], email_index = []\<rparr>"
  by (simp add: cache_b_def cache_a_eq up_def eval_defs)

lemma cache_c_eq:
  "cache_c U = \<lparr>contacts = [([97], \<lparr>cid = [97], name = None, phones = [[49], [50]], emails = [],
       aliases = [], updated_at = 4, created_at = 1\<rparr>),
      ([98], \<lparr>cid = [98], name = None, phones = [[50]], emails = [],
       aliases = [], updated_at = 2, created_at = 3\<rparr>)],
     phone_index = [([50], [97]), ([49], [97])], email_index = []\<rparr>"
  by (simp add: cache_c_def cache_b_eq up_def eval_defs)

lemma reachable_cache_a: "reachable U (cache_a U)"
  unfolding cache_a_def by (rule reach_upsert[OF reach_empty]) (simp_all add: ascii_def empty_cache_def)

lemma reachable_cache_b: "reachable U (cache_b U)"
  unfolding cache_b_def by (rule reach_upsert[OF reachable_cache_a]) (simp_all add: ascii_def cache_a_eq)

lemma reachable_cache_c: "reachable U (cache_c U)"
  unfolding cache_c_def by (rule reach_upsert[OF reachable_cache_b]) (simp_all add: ascii_def cache_b_eq)

lemma inv_phone_key:
  assumes "cache_inv U S" "k \<in> set (map fst (phone_index S))"
  shows "\<exists>i c. map_of (phone_index S) k = Some i \<and> map_of (contacts S) i = Some c \<and>
           k \<in> normalize_phone U ` set (phones c)"
proof -
  from assms(2) have "map_of (phone_index S) k \<noteq> None" by (simp add: map_of_eq_None_iff)
  then obtain i where "map_of (phone_index S) k = Some i" by blast
  with assms(1) show ?thesis unfolding cache_inv_def by blast
qed

lemma inv_email_key:
  assumes "cache_inv U S" "k \<in> set (map fst (email_index S))"
  shows "\<exists>i c. map_of (email_index S) k = Some i \<and> map_of (contacts S) i = Some c \<and>
           k \<in> lower U ` set (emails c)"
proof -
  from assms(2) have "map_of (email_index S) k \<noteq> None" by (simp add: map_of_eq_None_iff)
  then obtain i where "map_of (email_index S) k = Some i" by blast
  with assms(1) show ?thesis unfolding cache_inv_def by blast
qed

lemma inv_index_sound:
  assumes "cache_inv U S"
  shows "index_sound S"
  unfolding index_sound_def
proof (intro conjI ballI)
  fix k assume "k \<in> set (map fst (phone_index S))"
  from inv_phone_key[OF assms this]
  show "case map_of (phone_index S) k of None \<Rightarrow> False | Some i \<Rightarrow> map_of (contacts S) i \<noteq> None"
    by auto
next
  fix k assume "k \<in> set (map fst (email_index S))"
  from inv_email_key[OF assms this]
  show "case map_of (email_index S) k of None \<Rightarrow> False | Some i \<Rightarrow> map_of (contacts S) i \<noteq> None"
    by auto
qed

lemma inv_index_owned:
  assumes "cache_inv U S"
  shows "index_owned U S"
  unfolding index_owned_def
proof (intro conjI ballI)
  fix k assume "k \<in> set (map fst (phone_index S))"
  from inv_phone_key[OF assms this]
  show "case map_of (phone_index S) k of None \<Rightarrow> False
        | Some i \<Rightarrow> (case map_of (contacts S) i of None \<Rightarrow> False
                     | Some c \<Rightarrow> k \<in> set (map (normalize_phone U) (phones c)))"
    by auto
next
  fix k assume "k \<in> set (map fst (email_index S))"
  from inv_email_key[OF assms this]
  show "case map_of (email_index S) k of None \<Rightarrow> False
        | Some i \<Rightarrow> (case map_of (contacts S) i of None \<Rightarrow> False
                     | Some c \<Rightarrow> k \<in> set (map (lower U) (emails c)))"
    by auto
qed

lemma upsert_contact_indexed:
  assumes "cache_inv U S"
  shows "contact_indexed U (snd (upsert U S d new_id now now2)) (fst (upsert U S d new_id now now2))"
proof (cases "find_existing U S d")
  case None
  then show ?thesis by (simp add: upsert_create contact_indexed_def)
next
  case (Some e)
  from upsert_merge[OF assms Some, of new_id now now2] obtain old where
    "upsert U S d new_id now now2 =
      (merged old d now,
       index_contact U ((unindex_contact U S old)\<lparr>contacts := AList.update e (merged old d now) (contacts S)\<rparr>)
         (merged old d now))" by blast
  then show ?thesis by (simp add: contact_indexed_def)
qed

lemma reachable_agreeing_reachable: "reachable_agreeing U S \<Longrightarrow> reachable U S"
  by (induction rule: reachable_agreeing.induct) (auto intro: reachable.intros)

lemma upsert_cases:
  assumes "cache_inv U S"
  obtains (create) "find_existing U S d = None"
      "upsert U S d new_id now now2 =
         (created d new_id now now2,
          index_contact U (S\<lparr>contacts := AList.update new_id (created d new_id now now2) (contacts S)\<rparr>)
            (created d new_id now now2))"
    | (merge) e old where "find_existing U S d = Some e" "map_of (contacts S) e = Some old"
      "cid old = e"
      "upsert U S d new_id now now2 =
         (merged old d now,
          index_contact U ((unindex_contact U S old)\<lparr>contacts := AList.update e (merged old d now) (contacts S)\<rparr>)
            (merged old d now))"
proof (cases "find_existing U S d")
  case None
  then show ?thesis using create upsert_create by blast
next
  case (Some e)
  from upsert_merge[OF assms Some, of new_id now now2] obtain old where
    o: "map_of (contacts S) e = Some old" and
    u: "upsert U S d new_id now now2 =
         (merged old d now,
          index_contact U ((unindex_contact U S old)\<lparr>contacts := AList.update e (merged old d now) (contacts S)\<rparr>)
            (merged old d now))" by blast
  from assms o have "cid old = e" unfolding cache_inv_def by blast
  with Some o u show ?thesis using merge by blast
qed

lemma upsert_distinct:
  assumes "cache_inv U S" "distinct (map fst (contacts S))"
  shows "distinct (map fst (contacts (snd (upsert U S d new_id now now2))))"
  using assms(1)
proof (cases rule: upsert_cases[where d = d and new_id = new_id and now = now and ?now2.0 = now2])
  case create
  then show ?thesis using assms(2) by (simp add: distinct_update)
next
  case (merge e old)
  then show ?thesis using assms(2) by (simp add: distinct_update)
qed

lemma delete_distinct:
  assumes "distinct (map fst (contacts S))"
  shows "distinct (map fst (contacts (snd (delete U S contact_id))))"
  using assms by (cases "map_of (contacts S) contact_id") (simp_all add: delete_def distinct_delete)

lemma reachable_distinct: "reachable U S \<Longrightarrow> distinct (map fst (contacts S))"
proof (induction rule: reachable.induct)
  case reach_empty
  show ?case by (simp add: empty_cache_def)
next
  case (reach_upsert S new_id d now now2)
  from reachable_inv[OF reach_upsert.hyps(1)] reach_upsert.IH show ?case
    by (rule upsert_distinct)
next
  case (reach_delete S contact_id)
  then show ?case by (simp add: delete_distinct)
next
  case (reach_clear S)
  show ?case by (simp add: clear_def)
qed

text \<open>
  Completeness of the indices over the entries of the contact map.
\<close>

lemma contacts_indexed_iff:
  assumes "distinct (map fst (contacts S))"
  shows "contacts_indexed U S \<longleftrightarrow>
           (\<forall>i c. map_of (contacts S) i = Some c \<longrightarrow> contact_indexed U S c)"
proof -
  have "c \<in> set (map snd (contacts S)) \<longleftrightarrow> (\<exists>i. map_of (contacts S) i = Some c)" for c
    using assms by (force simp: image_iff)
  then show ?thesis unfolding contacts_indexed_def by blast
qed

lemma complete_merge:
  assumes inv: "cache_inv U S"
    and comp: "\<forall>i c. map_of (contacts S) i = Some c \<longrightarrow> contact_indexed U S c"
    and old: "map_of (contacts S) e = Some old"
    and fe: "find_existing U S d = Some e"
    and agree: "keys_agree U S d"
    and new: "map_of (contacts (index_contact U ((unindex_contact U S old)\<lparr>contacts := AList.update e (merged old d now) (contacts S)\<rparr>) (merged old d now))) i = Some c"
  shows "contact_indexed U
           (index_contact U ((unindex_contact U S old)\<lparr>contacts := AList.update e (merged old d now) (contacts S)\<rparr>) (merged old d now)) c"
proof -
  from inv old have e: "cid old = e" unfolding cache_inv_def by blast
  from comp old have oi: "contact_indexed U S old" by blast
  from new have "(i = e \<and> c = merged old d now) \<or> (i \<noteq> e \<and> map_of (contacts S) i = Some c)"
    by (auto simp: update_conv' split: if_splits)
  then show ?thesis
  proof
    assume "i = e \<and> c = merged old d now"
    then show ?thesis by (simp add: contact_indexed_def)
  next
    assume a: "i \<noteq> e \<and> map_of (contacts S) i = Some c"
    with inv have ci: "cid c = i" unfolding cache_inv_def by blast
    from a comp have c: "contact_indexed U S c" by blast
    show ?thesis unfolding contact_indexed_def
    proof (intro conjI ballI)
      fix p assume p: "p \<in> set (phones c)"
      with c ci have k: "map_of (phone_index S) (normalize_phone U p) = Some i"
        unfolding contact_indexed_def by blast
      have 1: "normalize_phone U p \<notin> normalize_phone U ` set (phones old)"
      proof
        assume "normalize_phone U p \<in> normalize_phone U ` set (phones old)"
        then obtain q where "q \<in> set (phones old)" "normalize_phone U p = normalize_phone U q" by blast
        with oi e have "map_of (phone_index S) (normalize_phone U p) = Some e"
          unfolding contact_indexed_def by simp
        with k a show False by simp
      qed
      have 2: "normalize_phone U p \<notin> normalize_phone U ` set (u_phones d)"
      proof
        assume "normalize_phone U p \<in> normalize_phone U ` set (u_phones d)"
        then obtain q where "q \<in> set (u_phones d)" "normalize_phone U p = normalize_phone U q" by blast
        with agree fe have "map_of (phone_index S) (normalize_phone U p) = None \<or>
            map_of (phone_index S) (normalize_phone U p) = Some e"
          unfolding keys_agree_def by auto
        with k a show False by auto
      qed
      from 1 2 k ci
      show "map_of (phone_index (index_contact U ((unindex_contact U S old)\<lparr>contacts := AList.update e (merged old d now) (contacts S)\<rparr>) (merged old d now))) (normalize_phone U p) = Some (cid c)"
        by (simp add: image_Un unindex_contact_def map_of_fold_delete)
    next
      fix m assume m: "m \<in> set (emails c)"
      with c ci have k: "map_of (email_index S) (lower U m) = Some i"
        unfolding contact_indexed_def by blast
      have 1: "lower U m \<notin> lower U ` set (emails old)"
      proof
        assume "lower U m \<in> lower U ` set (emails old)"
        then obtain q where "q \<in> set (emails old)" "lower U m = lower U q" by blast
        with oi e have "map_of (email_index S) (lower U m) = Some e"
          unfolding contact_indexed_def by simp
        with k a show False by simp
      qed
      have 2: "lower U m \<notin> lower U ` set (u_emails d)"
      proof
        assume "lower U m \<in> lower U ` set (u_emails d)"
        then obtain q where "q \<in> set (u_emails d)" "lower U m = lower U q" by blast
        with agree fe have "map_of (email_index S) (lower U m) = None \<or>
            map_of (email_index S) (lower U m) = Some e"
          unfolding keys_agree_def by auto
        with k a show False by auto
      qed
      from 1 2 k ci
      show "map_of (email_index (index_contact U ((unindex_contact U S old)\<lparr>contacts := AList.update e (merged old d now) (contacts S)\<rparr>) (merged old d now))) (lower U m) = Some (cid c)"
        by (simp add: image_Un unindex_contact_def map_of_fold_delete)
    qed
  qed
qed

lemma complete_create:
  assumes inv: "cache_inv U S"
    and comp: "\<forall>i c. map_of (contacts S) i = Some c \<longrightarrow> contact_indexed U S c"
    and fe: "find_existing U S d = None"
    and agree: "keys_agree U S d"
    and new: "map_of (contacts (index_contact U (S\<lparr>contacts := AList.update new_id (created d new_id now now2) (contacts S)\<rparr>) (created d new_id now now2))) i = Some c"
  shows "contact_indexed U
           (index_contact U (S\<lparr>contacts := AList.update new_id (created d new_id now now2) (contacts S)\<rparr>) (created d new_id now now2)) c"
proof -
  from new have "(i = new_id \<and> c = created d new_id now now2) \<or>
      (i \<noteq> new_id \<and> map_of (contacts S) i = Some c)"
    by (auto simp: update_conv' split: if_splits)
  then show ?thesis
  proof
    assume "i = new_id \<and> c = created d new_id now now2"
    then show ?thesis by (simp add: contact_indexed_def)
  next
    assume a: "i \<noteq> new_id \<and> map_of (contacts S) i = Some c"
    with inv have ci: "cid c = i" unfolding cache_inv_def by blast
    from a comp have c: "contact_indexed U S c" by blast
    show ?thesis unfolding contact_indexed_def
    proof (intro conjI ballI)
      fix p assume p: "p \<in> set (phones c)"
      with c ci have k: "map_of (phone_index S) (normalize_phone U p) = Some i"
        unfolding contact_indexed_def by blast
      have "normalize_phone U p \<notin> normalize_phone U ` set (u_phones d)"
      proof
        assume "normalize_phone U p \<in> normalize_phone U ` set (u_phones d)"
        then obtain q where "q \<in> set (u_phones d)" "normalize_phone U p = normalize_phone U q" by blast
        with agree fe have "map_of (phone_index S) (normalize_phone U p) = None"
          unfolding keys_agree_def by auto
        with k show False by simp
      qed
      with k ci
      show "map_of (phone_index (index_contact U (S\<lparr>contacts := AList.update new_id (created d new_id now now2) (contacts S)\<rparr>) (created d new_id now now2))) (normalize_phone U p) = Some (cid c)"
        by simp
    next
      fix m assume m: "m \<in> set (emails c)"
      with c ci have k: "map_of (email_index S) (lower U m) = Some i"
        unfolding contact_indexed_def by blast
      have "lower U m \<notin> lower U ` set (u_emails d)"
      proof
        assume "lower U m \<in> lower U ` set (u_emails d)"
        then obtain q where "q \<in> set (u_emails d)" "lower U m = lower U q" by blast
        with agree fe have "map_of (email_index S) (lower U m) = None"
          unfolding keys_agree_def by auto
        with k show False by simp
      qed
      with k ci
      show "map_of (email_index (index_contact U (S\<lparr>contacts := AList.update new_id (created d new_id now now2) (contacts S)\<rparr>) (created d new_id now now2))) (lower U m) = Some (cid c)"
        by simp
    qed
  qed
qed

lemma complete_upsert:
  assumes inv: "cache_inv U S"
    and comp: "\<forall>i c. map_of (contacts S) i = Some c \<longrightarrow> contact_indexed U S c"
    and agree: "keys_agree U S d"
  shows "\<forall>i c. map_of (contacts (snd (upsert U S d new_id now now2))) i = Some c \<longrightarrow>
           contact_indexed U (snd (upsert U S d new_id now now2)) c"
  using inv
proof (cases rule: upsert_cases[where d = d and new_id = new_id and now = now and ?now2.0 = now2])
  case create
  show ?thesis unfolding create(2) snd_conv
    using complete_create[OF inv comp create(1) agree] by blast
next
  case (merge e old)
  show ?thesis unfolding merge(4) snd_conv
    using complete_merge[OF inv comp merge(2) merge(1) agree] by blast
qed

lemma complete_delete:
  assumes inv: "cache_inv U S"
    and comp: "\<forall>i c. map_of (contacts S) i = Some c \<longrightarrow> contact_indexed U S c"
  shows "\<forall>i c. map_of (contacts (snd (delete U S contact_id))) i = Some c \<longrightarrow>
           contact_indexed U (snd (delete U S contact_id)) c"
proof (cases "map_of (contacts S) contact_id")
  case None
  then show ?thesis using comp by (simp add: delete_def)
next
  case (Some old)
  have eq: "snd (delete U S contact_id) =
      unindex_contact U (S\<lparr>contacts := AList.delete contact_id (contacts S)\<rparr>) old"
    using Some by (simp add: delete_def)
  from inv Some have e: "cid old = contact_id" unfolding cache_inv_def by blast
  from comp Some have oi: "contact_indexed U S old" by blast
  show ?thesis unfolding eq
  proof (intro allI impI)
    fix i c
    assume "map_of (contacts (unindex_contact U (S\<lparr>contacts := AList.delete contact_id (contacts S)\<rparr>) old)) i = Some c"
    then have a: "i \<noteq> contact_id" "map_of (contacts S) i = Some c"
      by (auto simp: delete_conv' split: if_splits)
    with inv have ci: "cid c = i" unfolding cache_inv_def by blast
    from a comp have c: "contact_indexed U S c" by blast
    show "contact_indexed U (unindex_contact U (S\<lparr>contacts := AList.delete contact_id (contacts S)\<rparr>) old) c"
      unfolding contact_indexed_def
    proof (intro conjI ballI)
      fix p assume "p \<in> set (phones c)"
      with c ci have k: "map_of (phone_index S) (normalize_phone U p) = Some i"
        unfolding contact_indexed_def by blast
      have "normalize_phone U p \<notin> normalize_phone U ` set (phones old)"
      proof
        assume "normalize_phone U p \<in> normalize_phone U ` set (phones old)"
        then obtain q where "q \<in> set (phones old)" "normalize_phone U p = normalize_phone U q" by blast
        with oi e have "map_of (phone_index S) (normalize_phone U p) = Some contact_id"
          unfolding contact_indexed_def by simp
        with k a show False by simp
      qed
      with k ci
      show "map_of (phone_index (unindex_contact U (S\<lparr>contacts := AList.delete contact_id (contacts S)\<rparr>) old)) (normalize_phone U p) = Some (cid c)"
        by simp
    next
      fix m assume "m \<in> set (emails c)"
      with c ci have k: "map_of (email_index S) (lower U m) = Some i"
        unfolding contact_indexed_def by blast
      have "lower U m \<notin> lower U ` set (emails old)"
      proof
        assume "lower U m \<in> lower U ` set (emails old)"
        then obtain q where "q \<in> set (emails old)" "lower U m = lower U q" by blast
        with oi e have "map_of (email_index S) (lower U m) = Some contact_id"
          unfolding contact_indexed_def by simp
        with k a show False by simp
      qed
      with k ci
      show "map_of (email_index (unindex_contact U (S\<lparr>contacts := AList.delete contact_id (contacts S)\<rparr>) old)) (lower U m) = Some (cid c)"
        by simp
    qed
  qed
qed

lemma agreeing_complete:
  "reachable_agreeing U S \<Longrightarrow>
     \<forall>i c. map_of (contacts S) i = Some c \<longrightarrow> contact_indexed U S c"
proof (induction rule: reachable_agreeing.induct)
  case agree_empty
  show ?case by (simp add: empty_cache_def)
next
  case (agree_upsert S new_id d now now2)
  from reachable_inv[OF reachable_agreeing_reachable[OF agree_upsert.hyps(1)]]
    agree_upsert.IH agree_upsert.hyps(4)
  show ?case by (rule complete_upsert)
next
  case (agree_delete S contact_id)
  from reachable_inv[OF reachable_agreeing_reachable[OF agree_delete.hyps]] agree_delete.IH
  show ?case by (rule complete_delete)
next
  case (agree_clear S)
  show ?case by (simp add: clear_def)
qed

lemma agreeing_contacts_indexed:
  assumes "reachable_agreeing U S"
  shows "contacts_indexed U S"
  using contacts_indexed_iff[OF reachable_distinct[OF reachable_agreeing_reachable[OF assms]]]
    agreeing_complete[OF assms] by blast

lemma upsert_index_frame:
  assumes "cache_inv U S"
  shows "index_frame U S (fst (upsert U S d new_id now now2)) (snd (upsert U S d new_id now now2))"
  using assms
proof (cases rule: upsert_cases[where d = d and new_id = new_id and now = now and ?now2.0 = now2])
  case create
  show ?thesis unfolding create(2) by (simp add: index_frame_def)
next
  case (merge e old)
  show ?thesis unfolding merge(4)
    by (simp add: index_frame_def image_Un unindex_contact_def map_of_fold_delete)
qed

lemma agreeing_cache_a: "reachable_agreeing U (cache_a U)"
  unfolding cache_a_def
  by (rule agree_upsert[OF agree_empty])
     (simp_all add: ascii_def empty_cache_def keys_agree_def up_def)

lemma agreeing_cache_b: "reachable_agreeing U (cache_b U)"
  unfolding cache_b_def
  by (rule agree_upsert[OF agreeing_cache_a])
     (simp_all add: cache_a_eq keys_agree_def up_def normalize_phone_def strip_def isspace_def
        isdigit_def ascii_def)

lemma cache_c_not_indexed: "\<not> contacts_indexed U (cache_c U)"
  by (simp add: cache_c_eq contacts_indexed_def contact_indexed_def
      normalize_phone_def strip_def isspace_def isdigit_def)

text \<open>
  C1 as stated fails.  Phone 1 creates contact a, phone 2 creates contact b, and an upsert
  of the phones 1 and 2 matches a through phone 1.  The cache after the three calls is
  reachable, contact b still has phone 2, and the phone index maps 2 to contact a.  The
  phones are ASCII, so nothing is read from the character database.
\<close>

theorem index_consistency_counterexample:
  "reachable ucd_excerpt (cache_c ucd_excerpt) \<and>
   \<not> (index_sound (cache_c ucd_excerpt) \<and> contacts_indexed ucd_excerpt (cache_c ucd_excerpt))"
  using reachable_cache_c cache_c_not_indexed by blast

text \<open>
  C1, amended.  In every cache reachable from the empty cache by upsert, delete and clear,
  every phone key and every email key of the indices maps to the id of a contact present
  in the contact map, and that contact has a phone (email) whose normalized (lowercased)
  form is the key; right after any upsert, every normalized phone and every lowercased
  email of the returned contact is in the corresponding index and maps to its id, and the
  index entries under all other keys are what they were before the call.  In every cache
  reached by calls in which each upsert supplies only phones and emails that are not
  indexed or are indexed to the contact it matches, the whole invariant holds: for every
  contact of the contact map, every normalized phone and every lowercased email is in the
  corresponding index and maps to the id of that contact.
\<close>

theorem index_consistency:
  "(reachable U S \<longrightarrow>
      index_sound S \<and> index_owned U S \<and>
      (\<forall>d new_id now now2.
         contact_indexed U (snd (upsert U S d new_id now now2)) (fst (upsert U S d new_id now now2)) \<and>
         index_frame U S (fst (upsert U S d new_id now now2)) (snd (upsert U S d new_id now now2)))) \<and>
   (reachable_agreeing U S \<longrightarrow> index_sound S \<and> index_owned U S \<and> contacts_indexed U S)"
proof (intro conjI impI allI)
  assume r: "reachable U S"
  then have inv: "cache_inv U S" by (rule reachable_inv)
  show "index_sound S" using inv by (rule inv_index_sound)
  show "index_owned U S" using inv by (rule inv_index_owned)
  show "contact_indexed U (snd (upsert U S d new_id now now2)) (fst (upsert U S d new_id now now2))"
    for d new_id now now2 using inv by (rule upsert_contact_indexed)
  show "index_frame U S (fst (upsert U S d new_id now now2)) (snd (upsert U S d new_id now now2))"
    for d new_id now now2 using inv by (rule upsert_index_frame)
next
  assume a: "reachable_agreeing U S"
  then have inv: "cache_inv U S" using reachable_agreeing_reachable reachable_inv by blast
  show "index_sound S" using inv by (rule inv_index_sound)
  show "index_owned U S" using inv by (rule inv_index_owned)
  show "contacts_indexed U S" using a by (rule agreeing_contacts_indexed)
qed

text \<open>
  The amended statement at the cache with the contacts a and b, which is reached by two
  upserts that match nothing, and at the upsert of the phones 1 and 2 into it.
\<close>

theorem index_consistency_witness:
  "reachable_agreeing ucd_excerpt (cache_b ucd_excerpt) \<and>
   reachable ucd_excerpt (cache_b ucd_excerpt) \<and>
   index_sound (cache_b ucd_excerpt) \<and> index_owned ucd_excerpt (cache_b ucd_excerpt) \<and>
   contacts_indexed ucd_excerpt (cache_b ucd_excerpt) \<and>
   contact_indexed ucd_excerpt (cache_c ucd_excerpt)
     (fst (upsert ucd_excerpt (cache_b ucd_excerpt) (up [ascii ''1'', ascii ''2'']) (ascii ''c'') 4 5))"
  using index_consistency[of ucd_excerpt "cache_b ucd_excerpt"]
    reachable_cache_b[of ucd_excerpt] agreeing_cache_b[of ucd_excerpt]
  unfolding cache_c_def by blast













lemma doe_cache_eq:
  "doe_cache U = \<lparr>contacts = [(ascii ''id-1'', \<lparr>cid = ascii ''id-1'', name = Some (ascii ''John Doe''),
        phones = [ascii ''+15551234567''], emails = [], aliases = [], updated_at = 1, created_at = 2\<rparr>)],
     phone_index = [(ascii ''+15551234567'', ascii ''id-1'')], email_index = []\<rparr>"
  by (simp add: doe_cache_def named_def eval_defs)

lemma john_cache_eq:
  "john_cache U = \<lparr>contacts = [(ascii ''id-1'', \<lparr>cid = ascii ''id-1'', name = Some (ascii ''John Doe''),
        phones = [ascii ''+15551234567''], emails = [], aliases = [], updated_at = 1, created_at = 2\<rparr>),
      (ascii ''id-2'', \<lparr>cid = ascii ''id-2'', name = Some (ascii ''John Smith''),
        phones = [ascii ''+15559999999''], emails = [], aliases = [], updated_at = 3, created_at = 4\<rparr>)],
     phone_index = [(ascii ''+15551234567'', ascii ''id-1''), (ascii ''+15559999999'', ascii ''id-2'')],
     email_index = []\<rparr>"
  by (simp add: john_cache_def doe_cache_eq named_def eval_defs)

lemma reachable_doe_cache: "reachable U (doe_cache U)"
  unfolding doe_cache_def by (rule reach_upsert[OF reach_empty]) (simp_all add: ascii_def empty_cache_def)


lemma john_resolve:
  "resolve U (john_cache U) None None (Some (ascii ''John'')) =
     result_ambiguous (map snd (contacts (john_cache U)))"
  by (simp add: john_cache_eq resolve_def resolve_name_def exact_match_def substring_match_def
      ascii_def lower_def is_ascii_def lower_cp_def Let_def)

lemma doe_resolve:
  "resolve U (doe_cache U) None None (Some (ascii ''john doe'')) =
     result_ok (snd (hd (contacts (doe_cache U))))"
  by (simp add: doe_cache_eq resolve_def resolve_name_def exact_match_def substring_match_def
      ascii_def lower_def is_ascii_def lower_cp_def Let_def)








lemma first_indexed_filter:
  "first_indexed idx (map f xs) =
     (case filter (\<lambda>x. map_of idx (f x) \<noteq> None) xs of
        x # _ \<Rightarrow> map_of idx (f x) | [] \<Rightarrow> None)"
  by (induction xs) (auto split: option.splits)

lemma filter_Cons_holds: "filter P xs = x # ys \<Longrightarrow> P x"
  by (metis filter_eq_Cons_iff)

lemma matched_id_alt:
  "matched_id U S d =
     (case first_indexed (phone_index S) (map (normalize_phone U) (u_phones d)) of
        Some i \<Rightarrow> Some i
      | None \<Rightarrow> first_indexed (email_index S) (map (lower U) (u_emails d)))"
proof (cases "filter (\<lambda>p. map_of (phone_index S) (normalize_phone U p) \<noteq> None) (u_phones d)")
  case Nil
  then show ?thesis by (simp add: matched_id_def first_indexed_filter)
next
  case (Cons p ps)
  from filter_Cons_holds[OF Cons] obtain i where "map_of (phone_index S) (normalize_phone U p) = Some i"
    by blast
  with Cons show ?thesis by (simp add: matched_id_def first_indexed_filter)
qed

lemma find_existing_matched:
  assumes "cache_inv U S"
  shows "find_existing U S d = matched_id U S d"
proof (cases "first_indexed (phone_index S) (map (normalize_phone U) (u_phones d))")
  case None
  then show ?thesis
    by (simp add: find_existing_def matched_id_alt split: option.splits)
next
  case (Some i)
  from first_indexed_Some[OF Some] assms have "i \<noteq> []" unfolding cache_inv_def by blast
  with Some show ?thesis
    by (simp add: find_existing_def matched_id_alt)
qed

lemma arabic_cache_eq:
  "arabic_cache U = \<lparr>contacts = [(ascii ''id-4'', \<lparr>cid = ascii ''id-4'', name = None,
        phones = [[1633, 1634, 1635]], emails = [], aliases = [],
        updated_at = 9, created_at = 10\<rparr>)],
     phone_index = [(normalize_phone U [1633, 1634, 1635], ascii ''id-4'')], email_index = []\<rparr>"
  by (simp add: arabic_cache_def up_def upsert_def find_existing_def index_contact_def
      empty_cache_def Let_def)

lemma arabic_keys:
  "normalize_phone ucd_excerpt [1633, 1634, 1635] = [1633, 1634, 1635]"
  "normalize_phone ucd_excerpt [1636, 1637, 1638] = [1636, 1637, 1638]"
  by (simp_all add: normalize_phone_def strip_def isspace_def isdigit_def ucd_excerpt_def)

lemma arabic_unmatched:
  "matched_id ucd_excerpt (arabic_cache ucd_excerpt) (up [[1636, 1637, 1638]]) = None"
  by (simp add: matched_id_def arabic_cache_eq arabic_keys up_def)

lemma reachable_arabic_cache: "reachable U (arabic_cache U)"
  unfolding arabic_cache_def by (rule reach_upsert[OF reach_empty]) (simp_all add: ascii_def empty_cache_def)

lemma merged_distinct:
  "distinct (phones (merged old d now))" "distinct (emails (merged old d now))"
  "distinct (aliases (merged old d now))"
  by (simp_all add: merged_def list_set_def)

text \<open>
  C3.  In a reachable cache, when the upsert supplies a phone whose normalized form is
  indexed (or, failing that, an email whose lowercased form is indexed), the returned
  contact has the id of the matched contact, its name is the new name when that is
  non-empty and the old name otherwise, its phones, emails and aliases are the unions of
  the old and new lists as sets, each without a repeated element, its \<open>updated_at\<close> is
  the reading of the clock in the call, its \<open>created_at\<close> is unchanged, and it is stored
  under that id.  When nothing matches, the returned contact is a new one with the
  generated id, the supplied fields and the two readings of the clock, stored under the
  generated id.
\<close>

theorem upsert_merge_semantics:
  assumes "reachable U S"
  shows
   "(\<forall>e. matched_id U S d = Some e \<longrightarrow>
       (\<exists>old. map_of (contacts S) e = Some old \<and> cid old = e \<and>
          cid (fst (upsert U S d new_id now now2)) = e \<and>
          name (fst (upsert U S d new_id now now2)) =
            (if truthy (u_name d) then u_name d else name old) \<and>
          set (phones (fst (upsert U S d new_id now now2))) = set (phones old) \<union> set (u_phones d) \<and>
          set (emails (fst (upsert U S d new_id now now2))) = set (emails old) \<union> set (u_emails d) \<and>
          set (aliases (fst (upsert U S d new_id now now2))) = set (aliases old) \<union> set (u_aliases d) \<and>
          distinct (phones (fst (upsert U S d new_id now now2))) \<and>
          distinct (emails (fst (upsert U S d new_id now now2))) \<and>
          distinct (aliases (fst (upsert U S d new_id now now2))) \<and>
          updated_at (fst (upsert U S d new_id now now2)) = now \<and>
          created_at (fst (upsert U S d new_id now now2)) = created_at old \<and>
          map_of (contacts (snd (upsert U S d new_id now now2))) e =
            Some (fst (upsert U S d new_id now now2)))) \<and>
    (matched_id U S d = None \<longrightarrow>
       fst (upsert U S d new_id now now2) =
         \<lparr>cid = new_id, name = u_name d, phones = u_phones d, emails = u_emails d,
          aliases = u_aliases d, updated_at = now, created_at = now2\<rparr> \<and>
       map_of (contacts (snd (upsert U S d new_id now now2))) new_id =
         Some (fst (upsert U S d new_id now now2)))"
proof -
  have inv: "cache_inv U S" using assms by (rule reachable_inv)
  show ?thesis
  proof (intro conjI allI impI)
    fix e assume "matched_id U S d = Some e"
    then have fe: "find_existing U S d = Some e" by (simp add: find_existing_matched[OF inv])
    from upsert_merge[OF inv fe, of new_id now now2] obtain old where
      old: "map_of (contacts S) e = Some old" and
      u: "upsert U S d new_id now now2 =
        (merged old d now,
         index_contact U ((unindex_contact U S old)\<lparr>contacts := AList.update e (merged old d now) (contacts S)\<rparr>)
           (merged old d now))" by blast
    from inv old have c: "cid old = e" unfolding cache_inv_def by blast
    show "\<exists>old. map_of (contacts S) e = Some old \<and> cid old = e \<and>
          cid (fst (upsert U S d new_id now now2)) = e \<and>
          name (fst (upsert U S d new_id now now2)) =
            (if truthy (u_name d) then u_name d else name old) \<and>
          set (phones (fst (upsert U S d new_id now now2))) = set (phones old) \<union> set (u_phones d) \<and>
          set (emails (fst (upsert U S d new_id now now2))) = set (emails old) \<union> set (u_emails d) \<and>
          set (aliases (fst (upsert U S d new_id now now2))) = set (aliases old) \<union> set (u_aliases d) \<and>
          distinct (phones (fst (upsert U S d new_id now now2))) \<and>
          distinct (emails (fst (upsert U S d new_id now now2))) \<and>
          distinct (aliases (fst (upsert U S d new_id now now2))) \<and>
          updated_at (fst (upsert U S d new_id now now2)) = now \<and>
          created_at (fst (upsert U S d new_id now now2)) = created_at old \<and>
          map_of (contacts (snd (upsert U S d new_id now now2))) e =
            Some (fst (upsert U S d new_id now now2))"
      using old c by (intro exI[of _ old]) (simp add: u name_or_def update_conv' merged_distinct)
  next
    assume "matched_id U S d = None"
    then have fe: "find_existing U S d = None" by (simp add: find_existing_matched[OF inv])
    show "fst (upsert U S d new_id now now2) =
         \<lparr>cid = new_id, name = u_name d, phones = u_phones d, emails = u_emails d,
          aliases = u_aliases d, updated_at = now, created_at = now2\<rparr>"
      by (simp add: upsert_create[OF fe] created_def)
    show "map_of (contacts (snd (upsert U S d new_id now now2))) new_id =
         Some (fst (upsert U S d new_id now now2))"
      by (simp add: upsert_create[OF fe] update_conv')
  qed
qed

text \<open>
  Upserting the same phone twice with different names: the id of the first call is
  returned again and the name is the second one; an upsert into the empty cache creates
  a contact with the generated id and the two readings of the clock.  Two phones written
  with different digits outside ASCII have different keys: the second one matches nothing
  and creates a second contact.
\<close>

theorem upsert_merge_semantics_witness:
  "reachable ucd_excerpt (doe_cache ucd_excerpt) \<and>
   matched_id ucd_excerpt (doe_cache ucd_excerpt) john_d = Some (ascii ''id-1'') \<and>
   cid (fst (upsert ucd_excerpt (doe_cache ucd_excerpt) john_d (ascii ''id-2'') 7 8)) = ascii ''id-1'' \<and>
   name (fst (upsert ucd_excerpt (doe_cache ucd_excerpt) john_d (ascii ''id-2'') 7 8)) =
     Some (ascii ''John D.'') \<and>
   set (emails (fst (upsert ucd_excerpt (doe_cache ucd_excerpt) john_d (ascii ''id-2'') 7 8))) =
     {ascii ''john@example.com''} \<and>
   updated_at (fst (upsert ucd_excerpt (doe_cache ucd_excerpt) john_d (ascii ''id-2'') 7 8)) = 7 \<and>
   created_at (fst (upsert ucd_excerpt (doe_cache ucd_excerpt) john_d (ascii ''id-2'') 7 8)) = 2 \<and>
   matched_id ucd_excerpt empty_cache john_d = None \<and>
   cid (fst (upsert ucd_excerpt empty_cache john_d (ascii ''id-2'') 7 8)) = ascii ''id-2'' \<and>
   updated_at (fst (upsert ucd_excerpt empty_cache john_d (ascii ''id-2'') 7 8)) = 7 \<and>
   created_at (fst (upsert ucd_excerpt empty_cache john_d (ascii ''id-2'') 7 8)) = 8 \<and>
   reachable ucd_excerpt (arabic_cache ucd_excerpt) \<and>
   matched_id ucd_excerpt (arabic_cache ucd_excerpt) (up [[1636, 1637, 1638]]) = None \<and>
   cid (fst (upsert ucd_excerpt (arabic_cache ucd_excerpt) (up [[1636, 1637, 1638]])
               (ascii ''id-5'') 11 12)) = ascii ''id-5''"
proof -
  let ?U = ucd_excerpt
  have m: "matched_id ?U (doe_cache ?U) john_d = Some (ascii ''id-1'')"
    by (simp add: matched_id_def doe_cache_eq john_d_def normalize_phone_def strip_def
        isspace_def isdigit_def ascii_def)
  have old: "map_of (contacts (doe_cache ?U)) (ascii ''id-1'') =
      Some \<lparr>cid = ascii ''id-1'', name = Some (ascii ''John Doe''),
        phones = [ascii ''+15551234567''], emails = [], aliases = [], updated_at = 1, created_at = 2\<rparr>"
    by (simp add: doe_cache_eq)
  have t: "truthy (u_name john_d)" "u_name john_d = Some (ascii ''John D.'')"
    "set (u_emails john_d) = {ascii ''john@example.com''}"
    by (simp_all add: john_d_def ascii_def)
  have m0: "matched_id ?U empty_cache john_d = None"
    by (simp add: matched_id_def empty_cache_def john_d_def)
  from upsert_merge_semantics[OF reachable_doe_cache, of ?U john_d "ascii ''id-2''" 7 8] m old t
  have a: "cid (fst (upsert ?U (doe_cache ?U) john_d (ascii ''id-2'') 7 8)) = ascii ''id-1'' \<and>
     name (fst (upsert ?U (doe_cache ?U) john_d (ascii ''id-2'') 7 8)) = Some (ascii ''John D.'') \<and>
     set (emails (fst (upsert ?U (doe_cache ?U) john_d (ascii ''id-2'') 7 8))) = {ascii ''john@example.com''} \<and>
     updated_at (fst (upsert ?U (doe_cache ?U) john_d (ascii ''id-2'') 7 8)) = 7 \<and>
     created_at (fst (upsert ?U (doe_cache ?U) john_d (ascii ''id-2'') 7 8)) = 2"
    by auto
  from upsert_merge_semantics[OF reach_empty, of ?U john_d "ascii ''id-2''" 7 8] m0
  have b: "cid (fst (upsert ?U empty_cache john_d (ascii ''id-2'') 7 8)) = ascii ''id-2'' \<and>
     updated_at (fst (upsert ?U empty_cache john_d (ascii ''id-2'') 7 8)) = 7 \<and>
     created_at (fst (upsert ?U empty_cache john_d (ascii ''id-2'') 7 8)) = 8"
    by simp
  from upsert_merge_semantics[OF reachable_arabic_cache, of ?U "up [[1636, 1637, 1638]]"
      "ascii ''id-5''" 11 12] arabic_unmatched
  have c: "cid (fst (upsert ?U (arabic_cache ?U) (up [[1636, 1637, 1638]]) (ascii ''id-5'') 11 12)) =
      ascii ''id-5''"
    by simp
  show ?thesis using reachable_doe_cache m a m0 b reachable_arabic_cache arabic_unmatched c by blast
qed

text \<open>
  C10.  With phone, email and name each \<open>None\<close> or the empty string, \<open>resolve\<close> returns
  status not found, no contact and no candidates, in every cache.  \<open>resolve\<close> returns
  a result only: it has no assignment to the cache.
\<close>

theorem resolve_no_identifier:
  "resolve U S None None None = result_not_found \<and>
   resolve U S (Some []) None None = result_not_found \<and>
   resolve U S None (Some []) None = result_not_found \<and>
   resolve U S None None (Some []) = result_not_found \<and>
   resolve U S (Some []) (Some []) None = result_not_found \<and>
   resolve U S (Some []) None (Some []) = result_not_found \<and>
   resolve U S None (Some []) (Some []) = result_not_found \<and>
   resolve U S (Some []) (Some []) (Some []) = result_not_found \<and>
   status result_not_found = Not_found \<and> contact result_not_found = None \<and>
   candidates result_not_found = []"
  by (simp add: resolve_def result_not_found_def)

section \<open>Link context\<close>














section \<open>Process failures\<close>

lemma failing_cmd_str: "shlex_join failing_cmd = ascii ''imsg chats --json''"
  by (simp add: shlex_join_def failing_cmd_def shlex_quote_def shlex_safe_def ascii_def)

lemma str_int_1: "str_int 1 = ascii ''1''"
  by (simp add: str_int_def ascii_def)

text \<open>
  C6 at the failing call.  In structured mode the error carries the exit code 1 and an
  empty diagnostic text, so the error shape has no \<^verbatim>\<open>stderr\<close> entry at all, although
  stdout holds the message of the tool; in raw mode the same outcome gives the diagnostic
  text ``permission denied''.
\<close>

theorem tool_failed_structured_drops_stdout:
  "run_imsg loads failing_cmd timeout_text failing_outcome =
     Inl \<lparr>message = ascii ''imsg failed with exit code 1'', code = 1, stderr = [],
          command = Some (ascii ''imsg chats --json'')\<rparr> \<and>
   d_stderr (to_dict U \<lparr>message = ascii ''imsg failed with exit code 1'', code = 1, stderr = [],
          command = Some (ascii ''imsg chats --json'')\<rparr>) = None \<and>
   run_imsg_raw failing_cmd timeout_text failing_outcome =
     Inl \<lparr>message = ascii ''imsg failed with exit code 1'', code = 1,
          stderr = ascii ''permission denied'',
          command = Some (ascii ''imsg chats --json'')\<rparr>"
proof -
  have sp: "strip [] = []" "strip (ascii ''permission denied'') = ascii ''permission denied''"
    by (simp_all add: strip_def isspace_def ascii_def)
  have a: "run_imsg loads failing_cmd timeout_text failing_outcome =
     Inl \<lparr>message = ascii ''imsg failed with exit code 1'', code = 1, stderr = [],
          command = Some (ascii ''imsg chats --json'')\<rparr>"
    by (simp add: run_imsg_def failing_outcome_def failing_cmd_str str_int_1 sp)
       (simp add: ascii_def)
  have b: "d_stderr (to_dict U \<lparr>message = ascii ''imsg failed with exit code 1'', code = 1,
          stderr = [], command = Some (ascii ''imsg chats --json'')\<rparr>) = None"
    by (simp add: to_dict_def Let_def)
  have ne: "ascii ''permission denied'' \<noteq> []" by (simp add: ascii_def)
  have c: "run_imsg_raw failing_cmd timeout_text failing_outcome =
     Inl \<lparr>message = ascii ''imsg failed with exit code 1'', code = 1,
          stderr = ascii ''permission denied'',
          command = Some (ascii ''imsg chats --json'')\<rparr>"
    by (simp add: run_imsg_raw_def failing_outcome_def failing_cmd_str str_int_1 sp ne)
       (simp add: ascii_def)
  from a b c show ?thesis by blast
qed

text \<open>
  What holds in general: in raw mode a non-zero exit gives an error with the exit code
  and, as diagnostic text, the stripped stderr when that is non-empty and the stripped
  stdout otherwise, cut to 500 characters in the error shape; in structured mode the
  diagnostic text is the stripped stderr alone.
\<close>

lemma run_imsg_raw_failure:
  assumes "returncode \<noteq> 0"
  shows "\<exists>e. run_imsg_raw cmd timeout_text (Exited returncode out err) = Inl e \<and>
           code e = returncode \<and>
           stderr e = (if strip err \<noteq> [] then strip err else strip out) \<and>
           d_code (to_dict U e) = returncode \<and>
           (case d_stderr (to_dict U e) of Some x \<Rightarrow> x = take 500 (stderr e) \<and> length x \<le> 500
            | None \<Rightarrow> stderr e = [])"
  using assms by (simp add: run_imsg_raw_def to_dict_def Let_def)

lemma run_imsg_failure:
  assumes "returncode \<noteq> 0"
  shows "\<exists>e. run_imsg loads cmd timeout_text (Exited returncode out err) = Inl e \<and>
           code e = returncode \<and> stderr e = strip err"
  using assms by (simp add: run_imsg_def Let_def)

section \<open>PII filter: the SSN rule and the order of the rules\<close>

text \<open>
  The equation of \<open>Star\<close> unfolds for ever under the simplifier; it is used by hand.
\<close>

declare ends.simps(10) [simp del]

lemma times_numeral [simp]: "times (numeral k) r = Seq r (times (pred_numeral k) r)"
  by (simp add: numeral_eq_Suc)

lemma up_to_numeral [simp]: "up_to (numeral k) r = Opt (Seq r (up_to (pred_numeral k) r))"
  by (simp add: numeral_eq_Suc)

lemma ctx_simps [simp]: "ctx p [] = p" "ctx p (a @ [c]) = Some c" "ctx (ctx p a) b = ctx p (a @ b)"
  by (auto simp: ctx_def)

lemma ctx_Cons [simp]: "ctx p (c # a) = ctx (Some c) a"
  by (auto simp: ctx_def)

lemma ends_suffix:
  "st' \<in> set (ends U r st) \<Longrightarrow> \<exists>m. snd st = m @ snd st' \<and> fst st' = ctx (fst st) m"
proof (induction r st arbitrary: st' rule: ends.induct)
  case (1 U st)
  then show ?case by (intro exI[of _ "[]"]) simp
next
  case (2 U P p)
  then show ?case by simp
next
  case (3 U P p c cs)
  then show ?case by (intro exI[of _ "[c]"]) (auto split: if_splits)
next
  case (4 U p s)
  then show ?case by (intro exI[of _ "[]"]) (auto split: if_splits)
next
  case (5 U p s)
  then show ?case by (intro exI[of _ "[]"]) (auto split: if_splits)
next
  case (6 U p s)
  then show ?case by (intro exI[of _ "[]"]) (auto split: if_splits)
next
  case (7 U a b st)
  from "7.prems" obtain m where m: "m \<in> set (ends U a st)" "st' \<in> set (ends U b m)" by auto
  from "7.IH"(1)[OF m(1)] obtain u where u: "snd st = u @ snd m" "fst m = ctx (fst st) u" by blast
  from "7.IH"(2)[OF m(1) m(2)] obtain v where v: "snd m = v @ snd st'" "fst st' = ctx (fst m) v" by blast
  from u v show ?case by (intro exI[of _ "u @ v"]) simp
next
  case (8 U a b st)
  then show ?case by auto
next
  case (9 U a st)
  from "9.prems" have "st' \<in> set (ends U a st) \<or> st' = st" by auto
  then show ?case
  proof
    assume "st' \<in> set (ends U a st)"
    then show ?thesis by (rule "9.IH")
  next
    assume "st' = st"
    then show ?thesis by (intro exI[of _ "[]"]) simp
  qed
next
  case (10 U a st)
  from "10.prems" have
    "st' \<in> set (concat (map (ends U (Star a))
       (filter (\<lambda>st'. length (snd st') < length (snd st)) (ends U a st))) @ [st])"
    by (subst (asm) ends.simps(10))
  then consider "st' = st"
    | m where "m \<in> set (ends U a st)" "length (snd m) < length (snd st)" "st' \<in> set (ends U (Star a) m)"
    by auto
  then show ?case
  proof cases
    case 1
    then show ?thesis by (intro exI[of _ "[]"]) simp
  next
    case 2
    from "10.IH"(1)[OF 2(1)] obtain u where u: "snd st = u @ snd m" "fst m = ctx (fst st) u" by blast
    from 2 have "m \<in> set (filter (\<lambda>st'. length (snd st') < length (snd st)) (ends U a st))" by simp
    from "10.IH"(2)[OF this 2(3)] obtain v where v: "snd m = v @ snd st'" "fst st' = ctx (fst m) v"
      by blast
    from u v show ?thesis by (intro exI[of _ "u @ v"]) simp
  qed
qed

lemma ends_length_le: "st' \<in> set (ends U r st) \<Longrightarrow> length (snd st') \<le> length (snd st)"
  using ends_suffix[of st' U r st] by auto

lemma ws_Cls: "(\<And>c. P c \<Longrightarrow> is_word U c) \<Longrightarrow> word_start U (Cls P)"
  unfolding word_start_def
proof (intro allI impI)
  fix st st' :: mstate assume a: "\<And>c. P c \<Longrightarrow> is_word U c" and m: "st' \<in> set (ends U (Cls P) st)"
  obtain p s where st: "st = (p, s)" by (cases st)
  show "word_after U (snd st) \<and> length (snd st') < length (snd st)"
    using m a unfolding st by (cases s) (auto split: if_splits)
qed

lemma ws_Seq: "word_start U a \<Longrightarrow> word_start U (Seq a b)"
  unfolding word_start_def
proof (intro allI impI)
  fix st st' assume a: "\<forall>st st'. st' \<in> set (ends U a st) \<longrightarrow> word_after U (snd st) \<and> length (snd st') < length (snd st)"
    and m: "st' \<in> set (ends U (Seq a b) st)"
  from m obtain x where x: "x \<in> set (ends U a st)" "st' \<in> set (ends U b x)" by auto
  from a x(1) have "word_after U (snd st)" "length (snd x) < length (snd st)" by blast+
  moreover from ends_length_le[OF x(2)] have "length (snd st') \<le> length (snd x)" .
  ultimately show "word_after U (snd st) \<and> length (snd st') < length (snd st)" by simp
qed

lemma ws_Alt: "word_start U a \<Longrightarrow> word_start U b \<Longrightarrow> word_start U (Alt a b)"
  unfolding word_start_def by auto

lemma hd_concat_map:
  "concat (map f xs) \<noteq> [] \<Longrightarrow> \<exists>x \<in> set xs. f x \<noteq> [] \<and> hd (concat (map f xs)) = hd (f x)"
proof (induction xs)
  case Nil
  then show ?case by simp
next
  case (Cons a xs)
  show ?case
  proof (cases "f a = []")
    case True
    with Cons.prems have "concat (map f xs) \<noteq> []" by simp
    from Cons.IH[OF this] True show ?thesis by auto
  next
    case False
    then have "hd (concat (map f (a # xs))) = hd (f a)" by simp
    with False show ?thesis by auto
  qed
qed

lemma decimal_word: "isdecimal U c \<Longrightarrow> is_word U c"
  by (simp add: is_word_def isalnum_def)

lemmas cls_defs = is_word_def isalnum_def isalpha_def isdecimal_def isdigit_def isnumeric_def

lemma hyphen_class [simp]: "\<not> is_word U 45" "\<not> isdecimal U 45"
  by (simp_all add: cls_defs)

lemma fo_WB: "first_ok U Word_boundary"
  unfolding first_ok_def digit_start_def
  by (auto split: if_splits list.splits dest: decimal_word)

lemma fo_Seq: "first_ok U b \<Longrightarrow> first_ok U (Seq a b)"
  unfolding first_ok_def
proof (intro allI impI)
  fix st assume b: "\<forall>st. ends U b st \<noteq> [] \<longrightarrow> digit_start U (snd (hd (ends U b st))) \<longrightarrow> \<not> word_before U (fst (hd (ends U b st)))"
    and ne: "ends U (Seq a b) st \<noteq> []" and d: "digit_start U (snd (hd (ends U (Seq a b) st)))"
  from ne have "concat (map (ends U b) (ends U a st)) \<noteq> []" by simp
  from hd_concat_map[OF this] obtain x where
    x: "ends U b x \<noteq> []" "hd (ends U (Seq a b) st) = hd (ends U b x)" by auto
  from d have "digit_start U (snd (hd (ends U b x)))" unfolding x(2) .
  with b[rule_format, OF x(1)] show "\<not> word_before U (fst (hd (ends U (Seq a b) st)))"
    unfolding x(2) by blast
qed

lemma star_cls_hd:
  "ends U (Star (Cls P)) (p, s) \<noteq> [] \<and>
   (case snd (hd (ends U (Star (Cls P)) (p, s))) of [] \<Rightarrow> True | c # cs \<Rightarrow> \<not> P c)"
proof (induction s arbitrary: p)
  case Nil
  show ?case by (subst ends.simps(10))+ simp
next
  case (Cons c cs)
  show ?case
  proof (cases "P c")
    case True
    have "ends U (Star (Cls P)) (p, c # cs) = ends U (Star (Cls P)) (Some c, cs) @ [(p, c # cs)]"
      using True by (subst ends.simps(10)) simp
    with Cons[of "Some c"] show ?thesis by simp
  next
    case False
    have "ends U (Star (Cls P)) (p, c # cs) = [(p, c # cs)]"
      using False by (subst ends.simps(10)) simp
    with False show ?thesis by simp
  qed
qed

lemma fo_Star_Cls: "(\<And>c. isdecimal U c \<Longrightarrow> P c) \<Longrightarrow> first_ok U (Star (Cls P))"
  unfolding first_ok_def digit_start_def
proof (intro allI impI)
  fix st :: mstate
  assume a: "\<And>c. isdecimal U c \<Longrightarrow> P c"
    and d: "case snd (hd (ends U (Star (Cls P)) st)) of [] \<Rightarrow> False | c # cs \<Rightarrow> isdecimal U c"
  obtain p s where st: "st = (p, s)" by (cases st)
  from star_cls_hd[of U P p s] d a show "\<not> word_before U (fst (hd (ends U (Star (Cls P)) st)))"
    unfolding st by (auto split: list.splits)
qed

lemma rule_intro:
  assumes "word_start U r" "first_ok U (Seq Word_boundary r)"
  shows "redaction_rule U (Seq Word_boundary r)"
  unfolding redaction_rule_def
proof (intro conjI allI impI)
  fix p s assume "ends U (Seq Word_boundary r) (p, s) \<noteq> []"
  then have b: "word_before U p \<noteq> word_after U s" and ne: "ends U r (p, s) \<noteq> []"
    by (auto split: if_splits)
  from ne obtain x where "x \<in> set (ends U r (p, s))" by (cases "ends U r (p, s)") auto
  with assms(1) have "word_after U s" unfolding word_start_def by fastforce
  with b show "\<not> word_before U p" by simp
next
  fix st st' :: mstate assume m: "st' \<in> set (ends U (Seq Word_boundary r) st)"
  obtain p s where st: "st = (p, s)" by (cases st)
  from m have "st' \<in> set (ends U r st)" unfolding st by (auto split: if_splits)
  with assms(1) show "length (snd st') < length (snd st)" unfolding word_start_def by blast
next
  show "first_ok U (Seq Word_boundary r)" by (rule assms(2))
qed

lemmas pat_defs = ssn_pattern_def credit_card_pattern_def bank_account_pattern_def
  routing_number_pattern_def password_pattern_def api_key_pattern_def
  between_def at_least_def plus_def lit_def ilit_def digit_def chr_def

lemma ignorecase_word:
  "unicode_ok U \<Longrightarrow> ignorecase U p c \<Longrightarrow> p < 128 \<and> isalpha U p \<Longrightarrow> is_word U c"
  unfolding unicode_ok_def by blast

lemma decimal_not_space: "unicode_ok U \<Longrightarrow> isdecimal U c \<Longrightarrow> \<not> isspace c"
  unfolding unicode_ok_def by blast

lemma ssn_rule: "redaction_rule U (ssn_pattern U)"
  unfolding pat_defs
  apply simp
  apply (rule rule_intro)
   apply (intro ws_Seq ws_Cls)
   apply (erule decimal_word)
  apply (intro fo_Seq fo_WB)
  done

lemma credit_card_rule: "redaction_rule U (credit_card_pattern U)"
  unfolding pat_defs
  apply simp
  apply (rule rule_intro)
   apply (intro ws_Seq ws_Cls)
   apply (erule decimal_word)
  apply (intro fo_Seq fo_WB)
  done

lemma bank_account_rule: "unicode_ok U \<Longrightarrow> redaction_rule U (bank_account_pattern U)"
  unfolding pat_defs
  apply (simp add: ascii_def)
  apply (rule rule_intro)
   apply (intro ws_Seq ws_Alt ws_Cls)
    apply (erule ignorecase_word, assumption, simp add: isalpha_def)+
  apply (intro fo_Seq fo_WB)
  done

lemma routing_number_rule: "unicode_ok U \<Longrightarrow> redaction_rule U (routing_number_pattern U)"
  unfolding pat_defs
  apply (simp add: ascii_def)
  apply (rule rule_intro)
   apply (intro ws_Seq ws_Alt ws_Cls)
    apply (erule ignorecase_word, assumption, simp add: isalpha_def)+
  apply (intro fo_Seq fo_WB)
  done

lemma password_rule: "unicode_ok U \<Longrightarrow> redaction_rule U (password_pattern U)"
  unfolding pat_defs
  apply (simp add: ascii_def)
  apply (rule rule_intro)
   apply (intro ws_Seq ws_Alt ws_Cls)
    apply (erule ignorecase_word, assumption, simp add: isalpha_def)+
  apply (intro fo_Seq fo_Star_Cls)
  apply (simp add: decimal_not_space)
  done

lemma api_key_rule: "unicode_ok U \<Longrightarrow> redaction_rule U (api_key_pattern U)"
  unfolding pat_defs
  apply (simp add: ascii_def)
  apply (rule rule_intro)
   apply (intro ws_Seq ws_Alt ws_Cls)
    apply (erule ignorecase_word, assumption, simp add: isalpha_def)+
  apply (intro fo_Seq fo_WB)
  done

lemma ends_Seq_Cls_Cons [simp]:
  "ends U (Seq (Cls P) r) (p, c # cs) = (if P c then ends U r (Some c, cs) else [])"
  by simp

lemma ends_Seq_Cls_Nil [simp]: "ends U (Seq (Cls P) r) (p, []) = []"
  by simp

lemma concat_map_assoc:
  "concat (map f (concat (map g xs))) = concat (map (\<lambda>x. concat (map f (g x))) xs)"
  by (induction xs) auto

lemma ends_Seq_assoc [simp]: "ends U (Seq (Seq a b) c) st = ends U (Seq a (Seq b c)) st"
proof -
  have "ends U (Seq b c) = (\<lambda>x. concat (map (ends U c) (ends U b x)))" by (rule ext) simp
  then show ?thesis by (simp add: concat_map_assoc)
qed

lemma ends_Seq_Eps [simp]: "ends U (Seq Eps r) st = ends U r st"
  by simp

lemma ends_Seq_Cls_D:
  "ends U (Seq (Cls P) r) (p, s) \<noteq> [] \<Longrightarrow> \<exists>c cs. s = c # cs \<and> P c \<and> ends U r (Some c, cs) \<noteq> []"
  by (cases s) (auto split: if_splits)

lemma ends_Cls_D:
  "ends U (Cls P) (p, s) \<noteq> [] \<Longrightarrow> \<exists>c cs. s = c # cs \<and> P c"
  by (cases s) (auto split: if_splits)

lemma ssn_ends_D:
  assumes "ends U (ssn_pattern U) (p, s) \<noteq> []"
  shows "\<not> word_before U p \<and> ssn_text U (take 11 s) \<and> \<not> word_after U (drop 11 s)"
proof -
  from assms have b: "word_before U p \<noteq> word_after U s" and
    m: "ends U (Seq (Cls (isdecimal U)) (Seq (Cls (isdecimal U)) (Seq (Cls (isdecimal U)) (Seq (Cls (\<lambda>x. x = 45))
         (Seq (Cls (isdecimal U)) (Seq (Cls (isdecimal U)) (Seq (Cls (\<lambda>x. x = 45))
         (Seq (Cls (isdecimal U)) (Seq (Cls (isdecimal U)) (Seq (Cls (isdecimal U)) (Seq (Cls (isdecimal U))
          Word_boundary))))))))))) (p, s) \<noteq> []"
    by (auto simp: pat_defs split: if_splits)
  from ends_Seq_Cls_D[OF m] obtain d1 s1 where 1: "s = d1 # s1" "isdecimal U d1" and
    m1: "ends U (Seq (Cls (isdecimal U)) (Seq (Cls (isdecimal U)) (Seq (Cls (\<lambda>x. x = 45))
         (Seq (Cls (isdecimal U)) (Seq (Cls (isdecimal U)) (Seq (Cls (\<lambda>x. x = 45))
         (Seq (Cls (isdecimal U)) (Seq (Cls (isdecimal U)) (Seq (Cls (isdecimal U)) (Seq (Cls (isdecimal U))
          Word_boundary)))))))))) (Some d1, s1) \<noteq> []" by blast
  from ends_Seq_Cls_D[OF m1] obtain d2 s2 where 2: "s1 = d2 # s2" "isdecimal U d2" and
    m2: "ends U (Seq (Cls (isdecimal U)) (Seq (Cls (\<lambda>x. x = 45))
         (Seq (Cls (isdecimal U)) (Seq (Cls (isdecimal U)) (Seq (Cls (\<lambda>x. x = 45))
         (Seq (Cls (isdecimal U)) (Seq (Cls (isdecimal U)) (Seq (Cls (isdecimal U)) (Seq (Cls (isdecimal U))
          Word_boundary))))))))) (Some d2, s2) \<noteq> []" by blast
  from ends_Seq_Cls_D[OF m2] obtain d3 s3 where 3: "s2 = d3 # s3" "isdecimal U d3" and
    m3: "ends U (Seq (Cls (\<lambda>x. x = 45))
         (Seq (Cls (isdecimal U)) (Seq (Cls (isdecimal U)) (Seq (Cls (\<lambda>x. x = 45))
         (Seq (Cls (isdecimal U)) (Seq (Cls (isdecimal U)) (Seq (Cls (isdecimal U)) (Seq (Cls (isdecimal U))
          Word_boundary)))))))) (Some d3, s3) \<noteq> []" by blast
  from ends_Seq_Cls_D[OF m3] obtain h1 s4 where 4: "s3 = h1 # s4" "h1 = 45" and
    m4: "ends U (Seq (Cls (isdecimal U)) (Seq (Cls (isdecimal U)) (Seq (Cls (\<lambda>x. x = 45))
         (Seq (Cls (isdecimal U)) (Seq (Cls (isdecimal U)) (Seq (Cls (isdecimal U)) (Seq (Cls (isdecimal U))
          Word_boundary))))))) (Some h1, s4) \<noteq> []" by blast
  from ends_Seq_Cls_D[OF m4] obtain d4 s5 where 5: "s4 = d4 # s5" "isdecimal U d4" and
    m5: "ends U (Seq (Cls (isdecimal U)) (Seq (Cls (\<lambda>x. x = 45))
         (Seq (Cls (isdecimal U)) (Seq (Cls (isdecimal U)) (Seq (Cls (isdecimal U)) (Seq (Cls (isdecimal U))
          Word_boundary)))))) (Some d4, s5) \<noteq> []" by blast
  from ends_Seq_Cls_D[OF m5] obtain d5 s6 where 6: "s5 = d5 # s6" "isdecimal U d5" and
    m6: "ends U (Seq (Cls (\<lambda>x. x = 45))
         (Seq (Cls (isdecimal U)) (Seq (Cls (isdecimal U)) (Seq (Cls (isdecimal U)) (Seq (Cls (isdecimal U))
          Word_boundary))))) (Some d5, s6) \<noteq> []" by blast
  from ends_Seq_Cls_D[OF m6] obtain h2 s7 where 7: "s6 = h2 # s7" "h2 = 45" and
    m7: "ends U (Seq (Cls (isdecimal U)) (Seq (Cls (isdecimal U)) (Seq (Cls (isdecimal U)) (Seq (Cls (isdecimal U))
          Word_boundary)))) (Some h2, s7) \<noteq> []" by blast
  from ends_Seq_Cls_D[OF m7] obtain d6 s8 where 8: "s7 = d6 # s8" "isdecimal U d6" and
    m8: "ends U (Seq (Cls (isdecimal U)) (Seq (Cls (isdecimal U)) (Seq (Cls (isdecimal U))
          Word_boundary))) (Some d6, s8) \<noteq> []" by blast
  from ends_Seq_Cls_D[OF m8] obtain d7 s9 where 9: "s8 = d7 # s9" "isdecimal U d7" and
    m9: "ends U (Seq (Cls (isdecimal U)) (Seq (Cls (isdecimal U)) Word_boundary)) (Some d7, s9) \<noteq> []" by blast
  from ends_Seq_Cls_D[OF m9] obtain d8 s10 where 10: "s9 = d8 # s10" "isdecimal U d8" and
    m10: "ends U (Seq (Cls (isdecimal U)) Word_boundary) (Some d8, s10) \<noteq> []" by blast
  from ends_Seq_Cls_D[OF m10] obtain d9 s11 where 11: "s10 = d9 # s11" "isdecimal U d9" and
    m11: "ends U Word_boundary (Some d9, s11) \<noteq> []" by blast
  have s: "s = [d1, d2, d3, h1, d4, d5, h2, d6, d7, d8, d9] @ s11"
    using 1 2 3 4 5 6 7 8 9 10 11 by simp
  from m11 decimal_word[OF 11(2)] have e: "\<not> word_after U s11"
    by (auto split: if_splits)
  from b 1 decimal_word[OF 1(2)] have "\<not> word_before U p" by auto
  moreover have "ssn_text U (take 11 s)"
    unfolding s using 1 2 3 4 5 6 7 8 9 10 11 by (simp add: ssn_text_def)
  moreover have "\<not> word_after U (drop 11 s)" unfolding s using e by simp
  ultimately show ?thesis by blast
qed

lemma ssn_text_D:
  assumes "ssn_text U w"
  shows "length w = 11" "\<forall>c \<in> set w. isdecimal U c \<or> c = 45" "isdecimal U (hd w)" "isdecimal U (last w)"
  using assms by (auto simp: ssn_text_def split: list.splits)

lemma ssn_ends_I:
  assumes "\<not> word_before U p" "ssn_text U (take 11 s)" "\<not> word_after U (drop 11 s)"
  shows "ends U (ssn_pattern U) (p, s) \<noteq> []"
proof -
  from assms(2) obtain d1 d2 d3 d4 d5 d6 d7 d8 d9 where
    t: "take 11 s = [d1, d2, d3, 45, d4, d5, 45, d6, d7, d8, d9]" and
    d: "isdecimal U d1" "isdecimal U d2" "isdecimal U d3" "isdecimal U d4" "isdecimal U d5" "isdecimal U d6"
       "isdecimal U d7" "isdecimal U d8" "isdecimal U d9"
    by (auto simp: ssn_text_def split: list.splits)
  have s: "s = [d1, d2, d3, 45, d4, d5, 45, d6, d7, d8, d9] @ drop 11 s"
    using t append_take_drop_id[of 11 s] by simp
  have w: "is_word U d1" "is_word U d9" using d by (auto intro: decimal_word)
  show ?thesis
    by (subst s) (use assms(1,3) d w in \<open>simp add: pat_defs\<close>)
qed

lemma ssn_ends_iff:
  "ends U (ssn_pattern U) (p, s) \<noteq> [] \<longleftrightarrow>
     \<not> word_before U p \<and> ssn_text U (take 11 s) \<and> \<not> word_after U (drop 11 s)"
  using ssn_ends_D ssn_ends_I by blast

lemma ssn_ends_digit: "ends U (ssn_pattern U) (p, c # cs) \<noteq> [] \<Longrightarrow> isdecimal U c"
  using ssn_ends_D[of U p "c # cs"] ssn_text_D(3)[of U "take 11 (c # cs)"] by simp

lemma ssn_ends_Nil [simp]: "ends U (ssn_pattern U) (p, []) = []"
  using ssn_ends_D[of U p "[]"] by (auto simp: ssn_text_def)

lemma covers_suffix: "covers U r p (m @ s) \<Longrightarrow> covers U r (ctx p m) s"
  by (induction m arbitrary: p) auto

lemma covers_self: "covers U (ssn_pattern U) p s"
  by (induction s arbitrary: p) auto

lemma covers_nomatch: "\<not> match_from U (ssn_pattern U) p s \<Longrightarrow> covers U r p s"
  by (induction s arbitrary: p) auto

lemma no_digit_prefix:
  "\<forall>c \<in> set t. \<not> isdecimal U c \<Longrightarrow>
     match_from U (ssn_pattern U) q (t @ Y) = match_from U (ssn_pattern U) (ctx q t) Y"
proof (induction t arbitrary: q)
  case Nil
  show ?case by simp
next
  case (Cons c t)
  from Cons.prems have "\<not> isdecimal U c" by simp
  then have "ends U (ssn_pattern U) (q, c # t @ Y) = []" using ssn_ends_digit by blast
  with Cons show ?case by simp
qed

lemma rule_no_match_word:
  "redaction_rule U r \<Longrightarrow> word_before U p \<Longrightarrow> ends U r (p, s) = []"
  unfolding redaction_rule_def by blast

lemma rule_Nil: "redaction_rule U r \<Longrightarrow> ends U r (p, []) = []"
proof (rule ccontr)
  assume r: "redaction_rule U r" and "ends U r (p, []) \<noteq> []"
  then obtain x where "x \<in> set (ends U r (p, []))" by (cases "ends U r (p, [])") auto
  with r have "length (snd x) < length (snd (p, []::ustring))"
    unfolding redaction_rule_def by blast
  then show False by simp
qed

lemma word_after_sub:
  assumes "redaction_rule U r" "word_before U p"
  shows "word_after U (sub_from U r tok p s) = word_after U s"
  using rule_no_match_word[OF assms] by (cases s) simp_all

lemma sub_prefix:
  assumes "token_ok U tok"
  shows "n \<le> length (sub_from U r tok p s) \<Longrightarrow>
         \<forall>c \<in> set (take n (sub_from U r tok p s)). isdecimal U c \<or> c = 45 \<Longrightarrow>
         take n s = take n (sub_from U r tok p s) \<and>
         drop n (sub_from U r tok p s) = sub_from U r tok (ctx p (take n s)) (drop n s)"
proof (induction n arbitrary: p s)
  case 0
  show ?case by simp
next
  case (Suc n)
  from assms have tk: "tok \<noteq> []" "\<not> isdecimal U (hd tok)" "hd tok \<noteq> 45"
    unfolding token_ok_def by (auto simp: hd_in_set)
  show ?case
  proof (cases s)
    case Nil
    have "sub_from U r tok p [] = [] \<or> sub_from U r tok p [] = tok" by simp
    then show ?thesis
    proof
      assume "sub_from U r tok p [] = []"
      with Suc.prems(1) Nil show ?thesis by simp
    next
      assume e: "sub_from U r tok p [] = tok"
      from Suc.prems(2) have "isdecimal U (hd tok) \<or> hd tok = 45"
        unfolding Nil e using tk(1) by (cases tok) auto
      with tk show ?thesis by simp
    qed
  next
    case (Cons c cs)
    show ?thesis
    proof (cases "ends U r (p, c # cs)")
      case Nil
      then have e: "sub_from U r tok p (c # cs) = c # sub_from U r tok (Some c) cs" by simp
      from Suc.prems(1,2) have
        "n \<le> length (sub_from U r tok (Some c) cs)"
        "\<forall>x \<in> set (take n (sub_from U r tok (Some c) cs)). isdecimal U x \<or> x = 45"
        unfolding Cons e by simp_all
      from Suc.IH[OF this] show ?thesis unfolding Cons e by simp
    next
      case (Cons a list)
      then have "\<exists>Z. sub_from U r tok p (c # cs) = tok @ Z"
        by (cases a) simp
      then obtain Z where e: "sub_from U r tok p (c # cs) = tok @ Z" by blast
      from Suc.prems(2) have "isdecimal U (hd tok) \<or> hd tok = 45"
        unfolding \<open>s = c # cs\<close> e using tk(1) by (cases tok) auto
      with tk show ?thesis by simp
    qed
  qed
qed

text \<open>
  The main lemma: substituting the matches of a redaction rule by a token neither leaves
  nor uncovers a match of the SSN pattern, provided every SSN match of the text is a
  match of the rule as well (which holds for the SSN rule itself, and for every rule
  once the text has no SSN match).
\<close>

lemma sub_no_ssn:
  assumes "redaction_rule U r" "token_ok U tok" "covers U r p X"
    "word_before U q = word_before U p \<or> \<not> digit_start U X"
  shows "\<not> match_from U (ssn_pattern U) q (sub_from U r tok p X)"
  using assms
proof (induction r tok p X arbitrary: q rule: sub_from.induct)
  case (1 U r repl p)
  from rule_Nil[OF "1.prems"(1)] show ?case by simp
next
  case (2 U r repl p c cs)
  note rule = "2.prems"(1) and tok = "2.prems"(2) and cov = "2.prems"(3) and ok = "2.prems"(4)
  show ?case
  proof (cases "ends U r (p, c # cs)")
    case Nil
    define Y where "Y = sub_from U r repl (Some c) cs"
    have out: "sub_from U r repl p (c # cs) = c # Y" using Nil by (simp add: Y_def)
    from cov have cov': "covers U r (Some c) cs" by simp
    have rest: "\<not> match_from U (ssn_pattern U) (Some c) Y"
      unfolding Y_def by (rule "2.IH"(1)[OF Nil rule tok cov']) simp
    have here: "ends U (ssn_pattern U) (q, c # Y) = []"
    proof (rule ccontr)
      assume "ends U (ssn_pattern U) (q, c # Y) \<noteq> []"
      from ssn_ends_D[OF this] have q: "\<not> word_before U q" and
        t: "ssn_text U (take 11 (c # Y))" and a: "\<not> word_after U (drop 11 (c # Y))" by blast+
      from ssn_text_D[OF t] have len: "length (take 11 (c # Y)) = 11" and
        ch: "\<forall>x \<in> set (take 11 (c # Y)). isdecimal U x \<or> x = 45" and
        dc: "isdecimal U c" and dl: "isdecimal U (last (take 11 (c # Y)))" by simp_all
      from ok dc q have p: "\<not> word_before U p" by (simp add: digit_start_def)
      from len have n: "10 \<le> length Y" by simp
      from ch have ch': "\<forall>x \<in> set (take 10 Y). isdecimal U x \<or> x = 45" by simp
      from sub_prefix[OF tok n[unfolded Y_def] ch'[unfolded Y_def]]
      have tk: "take 10 cs = take 10 Y" and
        dr: "drop 10 Y = sub_from U r repl (ctx (Some c) (take 10 cs)) (drop 10 cs)"
        by (simp_all add: Y_def)
      have t11: "take 11 (c # cs) = take 11 (c # Y)" using tk by simp
      have "ctx (Some c) (take 10 cs) = Some (last (take 11 (c # Y)))"
        using tk by (simp add: ctx_def)
      with dl have "word_before U (ctx (Some c) (take 10 cs))"
        by (simp add: decimal_word)
      from word_after_sub[OF rule this, of repl "drop 10 cs"] dr
      have "word_after U (drop 10 Y) = word_after U (drop 10 cs)" by simp
      with a have a': "\<not> word_after U (drop 11 (c # cs))" by simp
      from t have t': "ssn_text U (take 11 (c # cs))" unfolding t11 .
      from ssn_ends_I[OF p t' a'] cov have "ends U r (p, c # cs) \<noteq> []" by simp
      with Nil show False by simp
    qed
    from here rest show ?thesis unfolding out by simp
  next
    case (Cons a list)
    obtain p' s' where a: "a = (p', s')" by (cases a)
    have mem: "(p', s') \<in> set (ends U r (p, c # cs))" using Cons a by simp
    with rule have lt: "length s' < length (c # cs)"
      unfolding redaction_rule_def by fastforce
    have out: "sub_from U r repl p (c # cs) = repl @ sub_from U r repl p' s'"
      using Cons a lt by simp
    from ends_suffix[OF mem] obtain m where m: "c # cs = m @ s'" "p' = ctx p m" by auto
    from cov have cov': "covers U r p' s'" unfolding m by (rule covers_suffix)
    from rule have "first_ok U r" unfolding redaction_rule_def by blast
    then have "ends U r (p, c # cs) \<noteq> [] \<longrightarrow>
        digit_start U (snd (hd (ends U r (p, c # cs)))) \<longrightarrow>
        \<not> word_before U (fst (hd (ends U r (p, c # cs))))"
      unfolding first_ok_def by blast
    then have fo: "digit_start U s' \<longrightarrow> \<not> word_before U p'"
      unfolding Cons a by simp
    from tok have tk: "repl \<noteq> []" "\<forall>x \<in> set repl. \<not> isdecimal U x" "\<not> is_word U (last repl)"
      unfolding token_ok_def by blast+
    have okk: "word_before U (ctx q repl) = word_before U p' \<or> \<not> digit_start U s'"
      using fo tk by (auto simp: ctx_def)
    have "\<not> match_from U (ssn_pattern U) (ctx q repl) (sub_from U r repl p' s')"
      by (rule "2.IH"(2)[OF Cons a[symmetric] lt rule tok cov' okk])
    then show ?thesis unfolding out no_digit_prefix[OF tk(2)] .
  qed
qed

lemma contains_take: "take (length t) s = t \<Longrightarrow> contains s t"
  by (cases s) auto

lemma contains_append_self: "contains (t @ Y) t"
  by (rule contains_take) simp

lemma contains_Cons: "contains Y t \<Longrightarrow> contains (c # Y) t"
  by simp

lemma contains_append_right: "contains Y t \<Longrightarrow> contains (x @ Y) t"
  by (induction x) (auto intro: contains_Cons)

lemma sub_has_token:
  "match_from U r p X \<Longrightarrow> contains (sub_from U r tok p X) tok"
proof (induction r tok p X rule: sub_from.induct)
  case (1 U r repl p)
  then show ?case using contains_append_self[of repl "[]"] by simp
next
  case (2 U r repl p c cs)
  show ?case
  proof (cases "ends U r (p, c # cs)")
    case Nil
    with "2.prems" have "match_from U r (Some c) cs" by simp
    from "2.IH"(1)[OF Nil this] Nil show ?thesis by simp
  next
    case (Cons a list)
    obtain p' s' where a: "a = (p', s')" by (cases a)
    have "\<exists>Z. sub_from U r repl p (c # cs) = repl @ Z" using Cons a by simp
    then obtain Z where "sub_from U r repl p (c # cs) = repl @ Z" by blast
    then show ?thesis using contains_append_self[of repl Z] by simp
  qed
qed

lemma filter_regex_chain:
  "filter_regex U t =
     re_sub U (api_key_pattern U) (ascii ''[REDACTED-KEY]'')
      (re_sub U (password_pattern U) (ascii ''[REDACTED-PASSWORD]'')
        (re_sub U (routing_number_pattern U) (ascii ''[REDACTED-ROUTING]'')
          (re_sub U (bank_account_pattern U) (ascii ''[REDACTED-ACCOUNT]'')
            (re_sub U (credit_card_pattern U) (ascii ''[REDACTED-CC]'')
              (re_sub U (ssn_pattern U) (ascii ''[REDACTED-SSN]'') t)))))"
  by (simp add: filter_regex_def PII_PATTERNS_def)

lemma tokens_ok:
  "token_ok U (ascii ''[REDACTED-SSN]'')" "token_ok U (ascii ''[REDACTED-CC]'')"
  "token_ok U (ascii ''[REDACTED-ACCOUNT]'')" "token_ok U (ascii ''[REDACTED-ROUTING]'')"
  "token_ok U (ascii ''[REDACTED-PASSWORD]'')" "token_ok U (ascii ''[REDACTED-KEY]'')"
  by (simp_all add: token_ok_def ascii_def cls_defs)

lemma re_sub_ssn_clean:
  "token_ok U tok \<Longrightarrow> \<not> re_search U (ssn_pattern U) (re_sub U (ssn_pattern U) tok t)"
  unfolding re_search_def re_sub_def
  by (rule sub_no_ssn[OF ssn_rule _ covers_self]) simp_all

lemma re_sub_no_ssn:
  "redaction_rule U r \<Longrightarrow> token_ok U tok \<Longrightarrow> \<not> re_search U (ssn_pattern U) s \<Longrightarrow>
     \<not> re_search U (ssn_pattern U) (re_sub U r tok s)"
  unfolding re_search_def re_sub_def
  by (rule sub_no_ssn[OF _ _ covers_nomatch]) simp_all

lemma re_sub_has_token:
  "re_search U r t \<Longrightarrow> contains (re_sub U r tok t) tok"
  unfolding re_search_def re_sub_def by (rule sub_has_token)

lemmas chr_defs = cls_defs isspace_def lower_cp_def ignorecase_def ignorecase_class_def

lemma pin_step1:
  "re_sub U (ssn_pattern U) (ascii ''[REDACTED-SSN]'') pin_ssn_text = ascii ''pin [REDACTED-SSN]''"
  by (simp add: pin_ssn_text_def re_sub_def pat_defs chr_defs ascii_def ends.simps(10))

lemma pin_step2:
  "re_sub U (credit_card_pattern U) (ascii ''[REDACTED-CC]'') (ascii ''pin [REDACTED-SSN]'') =
     ascii ''pin [REDACTED-SSN]''"
  by (simp add: re_sub_def pat_defs chr_defs ascii_def ends.simps(10))

lemma pin_step3:
  "re_sub U (bank_account_pattern U) (ascii ''[REDACTED-ACCOUNT]'') (ascii ''pin [REDACTED-SSN]'') =
     ascii ''pin [REDACTED-SSN]''"
  by (simp add: re_sub_def pat_defs chr_defs ascii_def ends.simps(10))

lemma pin_step4:
  "re_sub U (routing_number_pattern U) (ascii ''[REDACTED-ROUTING]'') (ascii ''pin [REDACTED-SSN]'') =
     ascii ''pin [REDACTED-SSN]''"
  by (simp add: re_sub_def pat_defs chr_defs ascii_def ends.simps(10))

lemma pin_step5:
  "re_sub U (password_pattern U) (ascii ''[REDACTED-PASSWORD]'') (ascii ''pin [REDACTED-SSN]'') =
     ascii ''[REDACTED-PASSWORD]''"
  by (simp add: re_sub_def pat_defs chr_defs ascii_def ends.simps(10))

lemma pin_step6:
  "re_sub U (api_key_pattern U) (ascii ''[REDACTED-KEY]'') (ascii ''[REDACTED-PASSWORD]'') =
     ascii ''[REDACTED-PASSWORD]''"
  by (simp add: re_sub_def pat_defs chr_defs ascii_def ends.simps(10))

lemma pin_filtered: "filter_regex U pin_ssn_text = ascii ''[REDACTED-PASSWORD]''"
  unfolding filter_regex_chain pin_step1 pin_step2 pin_step3 pin_step4 pin_step5 pin_step6 ..

lemma pin_has_ssn: "re_search U (ssn_pattern U) pin_ssn_text"
  by (simp add: pin_ssn_text_def re_search_def pat_defs chr_defs ascii_def)

lemma unicode_ok_excerpt: "unicode_ok ucd_excerpt"
  unfolding unicode_ok_def
proof (intro conjI allI impI)
  fix c assume "isdecimal ucd_excerpt c"
  then show "\<not> isspace c"
    by (auto simp: isdecimal_def ucd_excerpt_def isspace_def split: if_splits)
next
  fix p c assume a: "p < 128 \<and> isalpha ucd_excerpt p \<and> ignorecase ucd_excerpt p c"
  show "is_word ucd_excerpt c"
  proof (cases "c < 128")
    case True
    with a have "isalpha ucd_excerpt c"
      by (auto simp: isalpha_def ignorecase_def lower_cp_def split: if_splits)
    then show ?thesis by (simp add: is_word_def isalnum_def)
  next
    case False
    with a have "uc_isalpha ucd_excerpt c"
      by (auto simp: ignorecase_def ucd_excerpt_def)
    with False show ?thesis by (simp add: is_word_def isalnum_def isalpha_def)
  qed
qed

lemma accent_ssn:
  "\<not> re_search ucd_excerpt (ssn_pattern ucd_excerpt) accent_ssn_text"
  by (simp add: accent_ssn_text_def re_search_def pat_defs chr_defs ascii_def ucd_excerpt_def)

lemma accent_step1:
  "re_sub ucd_excerpt (ssn_pattern ucd_excerpt) (ascii ''[REDACTED-SSN]'') accent_ssn_text =
     accent_ssn_text"
  by (simp add: accent_ssn_text_def re_sub_def pat_defs chr_defs ascii_def ucd_excerpt_def)

lemma arabic_ssn:
  "re_search ucd_excerpt (ssn_pattern ucd_excerpt) arabic_ssn_text"
  by (simp add: arabic_ssn_text_def re_search_def pat_defs chr_defs ucd_excerpt_def)

lemma arabic_step1:
  "re_sub ucd_excerpt (ssn_pattern ucd_excerpt) (ascii ''[REDACTED-SSN]'') arabic_ssn_text =
     ascii ''[REDACTED-SSN]''"
  by (simp add: arabic_ssn_text_def re_sub_def pat_defs chr_defs ascii_def ucd_excerpt_def)

text \<open>
  C4 as stated fails.  The text ``pin 123-45-6789'' has an SSN-shaped substring on word
  boundaries.  The SSN rule turns it into ``pin [REDACTED-SSN]'', and the password rule,
  which runs later on that output, replaces the label and the token together: the output
  of the filter is ``[REDACTED-PASSWORD]'' and does not contain the SSN token.  The text
  is ASCII, so nothing is read from the character database.
\<close>

theorem ssn_redaction_counterexample:
  "re_search ucd_excerpt (ssn_pattern ucd_excerpt) pin_ssn_text \<and>
   filter_pii ucd_excerpt (ascii ''regex'') (Some pin_ssn_text) =
     Some (ascii ''[REDACTED-PASSWORD]'') \<and>
   \<not> contains (ascii ''[REDACTED-PASSWORD]'') (ascii ''[REDACTED-SSN]'')"
proof -
  have "\<not> contains (ascii ''[REDACTED-PASSWORD]'') (ascii ''[REDACTED-SSN]'')"
    by (simp add: ascii_def)
  moreover have "filter_pii ucd_excerpt (ascii ''regex'') (Some pin_ssn_text) =
      Some (ascii ''[REDACTED-PASSWORD]'')"
    by (simp add: filter_pii_def pin_filtered) (simp add: ascii_def)
  ultimately show ?thesis using pin_has_ssn by blast
qed

text \<open>
  C4, amended.  With PII filtering enabled, for every text: the output of the SSN rule has
  no SSN-shaped substring on word boundaries and, when the text has one, contains the
  token [REDACTED-SSN]; the output of the whole filter has no SSN-shaped substring on word
  boundaries; and the filter applies the six rules cumulatively in the order SSN, credit
  card, bank account, routing number, password, API key, each rule to the output of the
  one before.  Digits and word boundaries are those of the patterns: a digit is a Unicode
  decimal digit and a word character a Unicode alphanumeric character or the underscore.
\<close>

theorem ssn_redaction:
  assumes "unicode_ok U"
  shows
  "\<not> re_search U (ssn_pattern U) (re_sub U (ssn_pattern U) (ascii ''[REDACTED-SSN]'') t) \<and>
   (re_search U (ssn_pattern U) t \<longrightarrow>
      contains (re_sub U (ssn_pattern U) (ascii ''[REDACTED-SSN]'') t) (ascii ''[REDACTED-SSN]'')) \<and>
   \<not> re_search U (ssn_pattern U) (filter_regex U t) \<and>
   filter_pii U (ascii ''regex'') (Some t) = Some (filter_regex U t) \<and>
   filter_regex U t =
     re_sub U (api_key_pattern U) (ascii ''[REDACTED-KEY]'')
      (re_sub U (password_pattern U) (ascii ''[REDACTED-PASSWORD]'')
        (re_sub U (routing_number_pattern U) (ascii ''[REDACTED-ROUTING]'')
          (re_sub U (bank_account_pattern U) (ascii ''[REDACTED-ACCOUNT]'')
            (re_sub U (credit_card_pattern U) (ascii ''[REDACTED-CC]'')
              (re_sub U (ssn_pattern U) (ascii ''[REDACTED-SSN]'') t)))))"
proof -
  have 1: "\<not> re_search U (ssn_pattern U) (re_sub U (ssn_pattern U) (ascii ''[REDACTED-SSN]'') t)"
    by (rule re_sub_ssn_clean[OF tokens_ok(1)])
  have 2: "\<not> re_search U (ssn_pattern U) (filter_regex U t)"
    unfolding filter_regex_chain
    by (intro re_sub_no_ssn api_key_rule[OF assms] password_rule[OF assms]
        routing_number_rule[OF assms] bank_account_rule[OF assms] credit_card_rule tokens_ok 1)
  have 3: "filter_pii U (ascii ''regex'') (Some t) = Some (filter_regex U t)"
    by (simp add: filter_pii_def) (simp add: ascii_def)
  show ?thesis using 1 2 3 re_sub_has_token filter_regex_chain by blast
qed

text \<open>
  The amended statement at the text ``pin 123-45-6789'', at an SSN written with the
  decimal digits U+0661 to U+0669, which the SSN rule replaces, and at an SSN that
  follows the letter U+00E9, where no word boundary precedes the digits and the SSN rule
  leaves the text as it is.
\<close>

theorem ssn_redaction_witness:
  "unicode_ok ucd_excerpt \<and>
   re_search ucd_excerpt (ssn_pattern ucd_excerpt) pin_ssn_text \<and>
   contains (re_sub ucd_excerpt (ssn_pattern ucd_excerpt) (ascii ''[REDACTED-SSN]'') pin_ssn_text)
     (ascii ''[REDACTED-SSN]'') \<and>
   \<not> re_search ucd_excerpt (ssn_pattern ucd_excerpt) (filter_regex ucd_excerpt pin_ssn_text) \<and>
   re_search ucd_excerpt (ssn_pattern ucd_excerpt) arabic_ssn_text \<and>
   re_sub ucd_excerpt (ssn_pattern ucd_excerpt) (ascii ''[REDACTED-SSN]'') arabic_ssn_text =
     ascii ''[REDACTED-SSN]'' \<and>
   \<not> re_search ucd_excerpt (ssn_pattern ucd_excerpt) (filter_regex ucd_excerpt arabic_ssn_text) \<and>
   \<not> re_search ucd_excerpt (ssn_pattern ucd_excerpt) accent_ssn_text \<and>
   re_sub ucd_excerpt (ssn_pattern ucd_excerpt) (ascii ''[REDACTED-SSN]'') accent_ssn_text =
     accent_ssn_text"
  using ssn_redaction[OF unicode_ok_excerpt, of pin_ssn_text]
    ssn_redaction[OF unicode_ok_excerpt, of arabic_ssn_text]
    unicode_ok_excerpt pin_has_ssn arabic_ssn arabic_step1 accent_ssn accent_step1
  by blast
section \<open>Fast search: what the scan returns\<close>
































section \<open>Search and link extraction without a thread\<close>

lemma probe_threads_none:
  "list_all (probe_empty T recipient) threads \<Longrightarrow> probe_threads T recipient threads = Inr None"
proof (induction threads)
  case Nil
  show ?case by simp
next
  case (Cons thread rest)
  then have p: "probe_empty T recipient thread" and r: "probe_threads T recipient rest = Inr None"
    by simp_all
  from p r show ?case
    by (auto simp: probe_empty_def split: sum.splits failure.splits)
qed

lemma probe_threads_none_D:
  "probe_threads T recipient threads = Inr None \<Longrightarrow> list_all (probe_empty T recipient) threads"
proof (induction threads)
  case Nil
  show ?case by simp
next
  case (Cons thread rest)
  then show ?case
    by (auto simp: probe_empty_def split: sum.splits failure.splits if_splits)
qed

lemma find_thread_none_iff:
  "find_thread_by_recipient T recipient 50 = Inr None \<longleftrightarrow> resolves_to_none T recipient"
  using probe_threads_none probe_threads_none_D
  by (auto simp: find_thread_by_recipient_def resolves_to_none_def split: sum.splits)

lemma target_thread_none:
  assumes "truthy recipient \<longrightarrow> resolves_to_none T (the recipient)"
  shows "target_thread T None recipient = Inr None"
  using assms find_thread_none_iff[of T "the recipient"] by (simp add: target_thread_def)

text \<open>
  When the tool fails while the threads are listed, the error leaves both operations:
  this is a failure of the tool, not a recipient that resolves to no thread.
\<close>

lemma list_failure_propagates:
  assumes "recipient \<noteq> []" "list_threads T 50 = Inl e"
  shows "search_messages T query None (Some recipient) scan_limit result_limit start end = Inl e"
    "extract_links T (Some recipient) None limit message_limit from_me start end = Inl e"
  using assms
  by (simp_all add: search_messages_def extract_links_def target_thread_def
      find_thread_by_recipient_def)

lemma str_int_2: "str_int 2 = ascii ''2''"
  by (simp add: str_int_def ascii_def)

lemma str_int_50: "str_int 50 = ascii ''50''"
  by (simp add: str_int_def ascii_def)

lemma two_threads_list:
  "list_threads two_threads 50 =
     Inr [\<lparr>th_id = 1, th_name = None, th_identifier = None, th_service = None,
           th_last_message_at = None, th_participants = []\<rparr>,
          \<lparr>th_id = 2, th_name = None, th_identifier = None, th_service = None,
           th_last_message_at = None, th_participants = []\<rparr>]"
  by (simp add: list_threads_def two_threads_def run_imsg_def Let_def ascii_def strip_def
      isspace_def)

lemma two_threads_probe_1:
  "\<exists>e. get_messages two_threads 1 1 None None (Some [recipient]) False = Inl (Imsg_error e)"
  by (simp add: get_messages_def get_messages_args_def two_threads_def run_imsg_def Let_def
      str_int_def ascii_def)

lemma two_threads_probe_2:
  "get_messages two_threads 2 1 None None (Some [recipient]) False = Inr []"
  by (simp add: get_messages_def get_messages_args_def two_threads_def run_imsg_def Let_def
      str_int_def ascii_def strip_def)

lemma two_threads_unresolved: "resolves_to_none two_threads recipient"
  using two_threads_probe_1[of recipient]
  by (auto simp: resolves_to_none_def two_threads_list probe_empty_def two_threads_probe_2)

text \<open>
  C8.  When no thread id is supplied and the recipient, if one is supplied, resolves to no
  thread, \<^verbatim>\<open>search_messages\<close> and \<^verbatim>\<open>extract_links\<close> return the empty list and raise
  nothing.  A recipient that is \<^verbatim>\<open>None\<close> or the empty string is looked up nowhere.  A
  supplied recipient resolves to no thread when the tool lists the threads and the probe
  of every listed thread for the recipient returns no message or fails with an
  \<^verbatim>\<open>ImsgError\<close>, which is when \<^verbatim>\<open>find_thread_by_recipient\<close> returns \<^verbatim>\<open>None\<close>.
\<close>

theorem unresolved_scope_empty:
  assumes "truthy recipient \<longrightarrow> resolves_to_none T (the recipient)"
  shows "search_messages T query None recipient scan_limit result_limit start end = Inr [] \<and>
         extract_links T recipient None limit message_limit from_me start end = Inr [] \<and>
         (truthy recipient \<longrightarrow> find_thread_by_recipient T (the recipient) 50 = Inr None)"
  using target_thread_none[OF assms] assms find_thread_none_iff[of T "the recipient"]
  by (simp add: search_messages_def extract_links_def)

text \<open>
  A tool that lists two threads, of which the probe of the first fails with an
  \<^verbatim>\<open>ImsgError\<close> and the probe of the second returns no message; and a call without a
  recipient.
\<close>

theorem unresolved_scope_empty_witness:
  "resolves_to_none two_threads (ascii ''+15550001111'') \<and>
   search_messages two_threads (ascii ''hello'') None (Some (ascii ''+15550001111'')) 10000 100
     None None = Inr [] \<and>
   extract_links two_threads (Some (ascii ''+15550001111'')) None 20 200 None None None = Inr [] \<and>
   search_messages two_threads (ascii ''hello'') None None 10000 100 None None = Inr [] \<and>
   extract_links two_threads (Some []) None 20 200 None None None = Inr []"
  using unresolved_scope_empty[of "Some (ascii ''+15550001111'')" two_threads "ascii ''hello''"
      10000 100 None None 20 200 None]
    unresolved_scope_empty[of None two_threads "ascii ''hello''" 10000 100 None None 20 200 None]
    unresolved_scope_empty[of "Some []" two_threads "ascii ''hello''" 10000 100 None None 20 200 None]
    two_threads_unresolved[of "ascii ''+15550001111''"]
  by simp
end
